theory Spec2Isabelle
  imports Complex_Main "HOL-Library.Multiset"
begin

section \<open>Strings and the Python string operations the search manager calls\<close>

text \<open>
  A Python \<open>str\<close> is a sequence of Unicode code points, so a string is a list of code
  points (natural numbers); \<open>u\<close> turns an ASCII literal into such a string.
  The apostrophe is code point 39, the typographic quotes U+2019 and U+2018 are 8217 and
  8216, the space is 32 and the backslash is 92.

  Scores are Python floats; they are modelled as real numbers, so rounding is not part of
  the model.
\<close>

type_synonym codepoint = nat
type_synonym ustr = "codepoint list"

definition u :: "string \<Rightarrow> ustr" where
  "u s = map of_char s"

text \<open>\<open>s.startswith(p)\<close>.\<close>

fun starts_with :: "ustr \<Rightarrow> ustr \<Rightarrow> bool" where
  "starts_with s [] = True"
| "starts_with [] (p # ps) = False"
| "starts_with (c # cs) (p # ps) = (c = p \<and> starts_with cs ps)"

text \<open>\<open>sub in s\<close>: \<open>sub\<close> occurs in \<open>s\<close> at some index.\<close>

fun py_in :: "ustr \<Rightarrow> ustr \<Rightarrow> bool" where
  "py_in sub [] = (sub = [])"
| "py_in sub (c # cs) = (starts_with (c # cs) sub \<or> py_in sub cs)"

text \<open>\<open>s.find(sub)\<close>: the lowest index where \<open>sub\<close> occurs, \<open>-1\<close> when it does not.\<close>

fun find_from :: "ustr \<Rightarrow> nat \<Rightarrow> ustr \<Rightarrow> int" where
  "find_from sub i [] = (if sub = [] then int i else - 1)"
| "find_from sub i (c # cs) =
     (if starts_with (c # cs) sub then int i else find_from sub (Suc i) cs)"

definition py_find :: "ustr \<Rightarrow> ustr \<Rightarrow> int" where
  "py_find s sub = find_from sub 0 s"

text \<open>
  \<open>s.count(sub)\<close>: the number of non-overlapping occurrences, scanning from the left;
  the empty string occurs \<open>len(s) + 1\<close> times. The counter \<open>k\<close> of \<open>count_go\<close> is the
  number of characters of the last occurrence still to be skipped.
\<close>

fun count_go :: "ustr \<Rightarrow> nat \<Rightarrow> ustr \<Rightarrow> nat" where
  "count_go sub k [] = 0"
| "count_go sub (Suc k) (c # cs) = count_go sub k cs"
| "count_go sub 0 (c # cs) =
     (if starts_with (c # cs) sub then Suc (count_go sub (length sub - 1) cs)
      else count_go sub 0 cs)"

definition py_count :: "ustr \<Rightarrow> ustr \<Rightarrow> nat" where
  "py_count s sub = (if sub = [] then length s + 1 else count_go sub 0 s)"

text \<open>
  \<open>s.replace(old, new)\<close>: every non-overlapping occurrence of \<open>old\<close>, scanning from the
  left, is replaced; an empty \<open>old\<close> puts \<open>new\<close> before every character and at the end.
\<close>

fun replace_go :: "ustr \<Rightarrow> ustr \<Rightarrow> nat \<Rightarrow> ustr \<Rightarrow> ustr" where
  "replace_go old new k [] = []"
| "replace_go old new (Suc k) (c # cs) = replace_go old new k cs"
| "replace_go old new 0 (c # cs) =
     (if starts_with (c # cs) old then new @ replace_go old new (length old - 1) cs
      else c # replace_go old new 0 cs)"

definition py_replace :: "ustr \<Rightarrow> ustr \<Rightarrow> ustr \<Rightarrow> ustr" where
  "py_replace s old new =
     (if old = [] then new @ concat (map (\<lambda>c. c # new) s) else replace_go old new 0 s)"

text \<open>
  The library functions whose tables are not part of the repository are parameters of the
  model: \<open>unicodedata.normalize('NFKD', s)\<close>, \<open>s.lower()\<close>, \<open>s.strip()\<close>, the
  character comparison of the regex engine under \<open>re.IGNORECASE\<close>, and
  \<open>re.compile\<close>. A compiled pattern is represented by what \<open>finditer\<close> yields on a
  text: the list of the start indices of the matches, in order.

  \<open>re.compile\<close> has three outcomes: the compiled pattern; \<open>re.error\<close>, the exception
  that \<open>_regex_search\<close> catches; or an exception of another class, which nothing in the
  search manager catches (CPython raises \<open>OverflowError\<close> for a repetition count that is
  too large, \<open>ValueError\<close> for a flag in the pattern that clashes with the flags given,
  and \<open>RecursionError\<close> for a pattern nested too deeply).
\<close>

datatype error = FileNotFoundError | ValueError | KeyError | OverflowError | RecursionError

datatype compiled = Compiled "ustr \<Rightarrow> nat list" | ReError | Raised error

record re_flags =
  IGNORECASE :: bool
  DOTALL :: bool
  UNICODE :: bool

record pylib =
  py_nfkd :: "ustr \<Rightarrow> ustr"
  py_lower :: "ustr \<Rightarrow> ustr"
  py_strip :: "ustr \<Rightarrow> ustr"
  re_ci :: "codepoint \<Rightarrow> codepoint \<Rightarrow> bool"
  re_compile :: "ustr \<Rightarrow> re_flags \<Rightarrow> compiled"

section \<open>Messages, configuration and the manager\<close>

text \<open>
  A message is a dict; the search reads its keys \<open>text\<close> and \<open>name\<close> with
  \<open>msg.get(key, "")\<close>.
\<close>

type_synonym message = "(string \<times> ustr) list"

definition msg_get :: "message \<Rightarrow> string \<Rightarrow> ustr \<Rightarrow> ustr" where
  "msg_get msg k d = (case map_of msg k of None \<Rightarrow> d | Some v \<Rightarrow> v)"

record regex_options =
  ignore_case :: "bool option"
  dot_all :: "bool option"
  unicode :: "bool option"
  max_pattern_length :: "int option"

record mode_config =
  enabled :: "bool option"
  weight :: "real option"
  options :: "regex_options option"

record config =
  cfg_search_modes :: "(string \<times> mode_config) list"
  cfg_default_mode :: "string option"
  cfg_hybrid_weights :: "string \<rightharpoonup> real"

record manager =
  config :: config
  search_modes :: "string \<rightharpoonup> mode_config"

text \<open>\<open>d.get(k, default)\<close> on an optional entry.\<close>

definition get_or :: "'a option \<Rightarrow> 'a \<Rightarrow> 'a" where
  "get_or v d = (case v of None \<Rightarrow> d | Some x \<Rightarrow> x)"

fun initialize_search_modes ::
  "(string \<times> mode_config) list \<Rightarrow> (string \<rightharpoonup> mode_config) \<Rightarrow> (string \<rightharpoonup> mode_config)" where
  "initialize_search_modes [] sm = sm"
| "initialize_search_modes ((name, mode) # rest) sm =
     (if get_or (enabled mode) False then
        (if name = ''semantic'' then initialize_search_modes rest sm
         else initialize_search_modes rest (sm(name \<mapsto> mode)))
      else initialize_search_modes rest sm)"

text \<open>
  The constructor; \<open>None\<close> stands for a configuration file that does not exist.
\<close>

definition new_manager :: "config option \<Rightarrow> error + manager" where
  "new_manager src =
     (case src of
        None \<Rightarrow> Inl FileNotFoundError
      | Some c \<Rightarrow> Inr \<lparr>config = c,
                       search_modes = initialize_search_modes (cfg_search_modes c) Map.empty\<rparr>)"

definition get_default_mode :: "manager \<Rightarrow> string" where
  "get_default_mode M =
     (let default = get_or (cfg_default_mode (config M)) ''exact''
      in if default = ''semantic'' then ''exact'' else default)"

section \<open>Exact search\<close>

text \<open>
  NFKD normalisation followed by the two \<open>replace\<close> calls that fold the typographic
  quotes into the ASCII apostrophe; the source repeats these lines for the query and for
  every message text.
\<close>

definition normalized :: "pylib \<Rightarrow> ustr \<Rightarrow> ustr" where
  "normalized L s = py_replace (py_replace (py_nfkd L s) [8217] [39]) [8216] [39]"

definition contraction_pairs :: "(ustr \<times> ustr list) list" where
  "contraction_pairs =
    [(u ''don't'', [u ''didn't'', u ''do not'', u ''did not'']),
     (u ''didn't'', [u ''don't'', u ''did not'', u ''do not'']),
     (u ''isn't'', [u ''wasn't'', u ''is not'', u ''was not'']),
     (u ''wasn't'', [u ''isn't'', u ''was not'', u ''is not'']),
     (u ''can't'', [u ''couldn't'', u ''cannot'', u ''could not'']),
     (u ''couldn't'', [u ''can't'', u ''could not'', u ''cannot'']),
     (u ''won't'', [u ''wouldn't'', u ''will not'', u ''would not'']),
     (u ''wouldn't'', [u ''won't'', u ''would not'', u ''will not'']),
     (u ''aren't'', [u ''weren't'', u ''are not'', u ''were not'']),
     (u ''weren't'', [u ''aren't'', u ''were not'', u ''are not'']),
     (u ''haven't'', [u ''hadn't'', u ''have not'', u ''had not'']),
     (u ''hadn't'', [u ''haven't'', u ''had not'', u ''have not''])]"

text \<open>
  Python dicts keep insertion order, and the order of the alternatives depends on it, so
  a dict is an association list: a new key goes to the end, an existing key keeps its
  place.
\<close>

fun dict_set :: "'k \<Rightarrow> 'v \<Rightarrow> ('k \<times> 'v) list \<Rightarrow> ('k \<times> 'v) list" where
  "dict_set k v [] = [(k, v)]"
| "dict_set k v ((k', v') # d) =
     (if k' = k then (k', v) # d else (k', v') # dict_set k v d)"

text \<open>
  \<open>if variant not in d: d[variant] = []\<close> followed by \<open>d[variant].append(contraction)\<close>.
\<close>

fun dict_append :: "'k \<Rightarrow> 'v \<Rightarrow> ('k \<times> 'v list) list \<Rightarrow> ('k \<times> 'v list) list" where
  "dict_append k v [] = [(k, [v])]"
| "dict_append k v ((k', vs) # d) =
     (if k' = k then (k', vs @ [v]) # d else (k', vs) # dict_append k v d)"

fun expand_variants ::
  "ustr \<Rightarrow> ustr list \<Rightarrow> (ustr \<times> ustr list) list \<Rightarrow> (ustr \<times> ustr list) list" where
  "expand_variants contraction [] d = d"
| "expand_variants contraction (variant # variants) d =
     expand_variants contraction variants
       (if py_in [32] variant then dict_append variant contraction d else d)"

fun expand_pairs ::
  "(ustr \<times> ustr list) list \<Rightarrow> (ustr \<times> ustr list) list \<Rightarrow> (ustr \<times> ustr list) list" where
  "expand_pairs [] d = d"
| "expand_pairs ((contraction, variants) # rest) d =
     expand_pairs rest (expand_variants contraction variants d)"

definition expanded_to_contraction :: "(ustr \<times> ustr list) list" where
  "expanded_to_contraction = expand_pairs contraction_pairs []"

text \<open>\<open>d.update(other)\<close>.\<close>

fun dict_update :: "('k \<times> 'v) list \<Rightarrow> ('k \<times> 'v) list \<Rightarrow> ('k \<times> 'v) list" where
  "dict_update d [] = d"
| "dict_update d ((k, v) # other) = dict_update (dict_set k v d) other"

definition contraction_lookup :: "(ustr \<times> ustr list) list" where
  "contraction_lookup = dict_update contraction_pairs expanded_to_contraction"

text \<open>
  The two loops that build \<open>alternatives\<close>. The keys and variants of the table are
  lower-case ASCII literals, on which \<open>lower()\<close> is the identity, so the calls
  \<open>contraction.lower()\<close> and \<open>variant.lower()\<close> are left out.
\<close>

fun variant_loop :: "ustr \<Rightarrow> ustr \<Rightarrow> ustr list \<Rightarrow> ustr list \<Rightarrow> ustr list" where
  "variant_loop query_lower contraction [] alts = alts"
| "variant_loop query_lower contraction (variant # variants) alts =
     (let alt_query = py_replace query_lower contraction variant
      in variant_loop query_lower contraction variants
           (if alt_query \<noteq> query_lower \<and> alt_query \<notin> set alts then alts @ [alt_query]
            else alts))"

fun contraction_loop :: "ustr \<Rightarrow> (ustr \<times> ustr list) list \<Rightarrow> ustr list \<Rightarrow> ustr list" where
  "contraction_loop query_lower [] alts = alts"
| "contraction_loop query_lower ((contraction, variants) # rest) alts =
     contraction_loop query_lower rest
       (if py_in contraction query_lower
        then variant_loop query_lower contraction variants alts else alts)"

definition alternatives :: "ustr \<Rightarrow> ustr list" where
  "alternatives query_lower = contraction_loop query_lower contraction_lookup [query_lower]"

text \<open>The score of a message whose text contains \<open>alt_query\<close>.\<close>

definition exact_score :: "real \<Rightarrow> ustr \<Rightarrow> ustr \<Rightarrow> ustr \<Rightarrow> real" where
  "exact_score w query_lower text alt_query =
     (let match_count = py_count text alt_query;
          position_factor =
            (if text \<noteq> [] then 1 - real_of_int (py_find text alt_query) / real (length text + 1)
             else 0);
          score = w * (0.6 + 0.2 * real match_count + 0.2 * position_factor)
      in if alt_query \<noteq> query_lower then score * 0.9 else score)"

text \<open>
  The inner loop over the alternatives, left by \<open>break\<close> at the first one that occurs
  in the text: \<open>Some\<close> is the pair appended to the results.
\<close>

fun alt_loop :: "real \<Rightarrow> ustr \<Rightarrow> ustr \<Rightarrow> message \<Rightarrow> ustr list \<Rightarrow> (real \<times> message) option" where
  "alt_loop w query_lower text msg [] = None"
| "alt_loop w query_lower text msg (alt_query # alts) =
     (if py_in alt_query text then Some (exact_score w query_lower text alt_query, msg)
      else alt_loop w query_lower text msg alts)"

fun exact_loop ::
  "pylib \<Rightarrow> real \<Rightarrow> ustr \<Rightarrow> ustr list \<Rightarrow> message list \<Rightarrow> (real \<times> message) list
   \<Rightarrow> (real \<times> message) list" where
  "exact_loop L w query_lower alts [] results = results"
| "exact_loop L w query_lower alts (msg # msgs) results =
     (let text = py_lower L (normalized L (msg_get msg ''text'' []))
      in exact_loop L w query_lower alts msgs
           (case alt_loop w query_lower text msg alts of
              None \<Rightarrow> results
            | Some r \<Rightarrow> results @ [r]))"

text \<open>
  \<open>results.sort(key=lambda x: x[0], reverse=True)\<close>: a stable sort by descending score.
\<close>

definition sort_results :: "(real \<times> 'a) list \<Rightarrow> (real \<times> 'a) list" where
  "sort_results results = sort_key (\<lambda>x. - fst x) results"

definition mode_weight :: "manager \<Rightarrow> string \<Rightarrow> real" where
  "mode_weight M name =
     (case search_modes M name of None \<Rightarrow> 1 | Some mode \<Rightarrow> get_or (weight mode) 1)"

definition exact_search :: "pylib \<Rightarrow> manager \<Rightarrow> ustr \<Rightarrow> message list \<Rightarrow> (real \<times> message) list" where
  "exact_search L M query messages =
     (let normalized_query = normalized L query;
          query_lower = py_lower L normalized_query;
          w = mode_weight M ''exact''
      in sort_results (exact_loop L w query_lower (alternatives query_lower) messages []))"

section \<open>Regex search\<close>

text \<open>
  \<open>re.escape\<close>: a backslash before each of the characters
  \<^verbatim>\<open>()[]{}?*+-|^$\.&~#\<close>, space, tab, newline, carriage return, vertical tab and
  form feed.
\<close>

definition re_special :: "codepoint list" where
  "re_special =
     [40, 41, 91, 93, 123, 125, 63, 42, 43, 45, 124, 94, 36, 92, 46, 38, 126, 35,
      32, 9, 10, 13, 11, 12]"

definition re_escape :: "ustr \<Rightarrow> ustr" where
  "re_escape s = concat (map (\<lambda>c. if c \<in> set re_special then [92, c] else [c]) s)"

text \<open>
  \<open>re.sub(re.escape(pat), repl, s, flags=re.IGNORECASE)\<close> for a literal \<open>pat\<close>:
  scanning from the left, every non-overlapping stretch of \<open>s\<close> that matches \<open>pat\<close>
  character by character, up to case, is replaced by \<open>repl\<close>. The replacement
  strings built below hold no backslash other than before a space, which the template
  syntax of \<open>re.sub\<close> leaves as it is.
\<close>

fun starts_with_ci :: "(codepoint \<Rightarrow> codepoint \<Rightarrow> bool) \<Rightarrow> ustr \<Rightarrow> ustr \<Rightarrow> bool" where
  "starts_with_ci ci s [] = True"
| "starts_with_ci ci [] (p # ps) = False"
| "starts_with_ci ci (c # cs) (p # ps) = (ci p c \<and> starts_with_ci ci cs ps)"

fun sub_go :: "(codepoint \<Rightarrow> codepoint \<Rightarrow> bool) \<Rightarrow> ustr \<Rightarrow> ustr \<Rightarrow> nat \<Rightarrow> ustr \<Rightarrow> ustr" where
  "sub_go ci pat repl k [] = []"
| "sub_go ci pat repl (Suc k) (c # cs) = sub_go ci pat repl k cs"
| "sub_go ci pat repl 0 (c # cs) =
     (if starts_with_ci ci (c # cs) pat then repl @ sub_go ci pat repl (length pat - 1) cs
      else c # sub_go ci pat repl 0 cs)"

definition re_sub_ignorecase :: "pylib \<Rightarrow> ustr \<Rightarrow> ustr \<Rightarrow> ustr \<Rightarrow> ustr" where
  "re_sub_ignorecase L pat repl s =
     (if pat = [] then repl @ concat (map (\<lambda>c. c # repl) s)
      else sub_go (re_ci L) pat repl 0 s)"

definition contraction_terms :: "(ustr \<times> ustr list) list" where
  "contraction_terms =
    [(u ''don't'', [u ''didn't'', u ''don't'', u ''do not'', u ''did not'']),
     (u ''didn't'', [u ''don't'', u ''didn't'', u ''did not'', u ''do not'']),
     (u ''isn't'', [u ''wasn't'', u ''isn't'', u ''is not'', u ''was not'']),
     (u ''wasn't'', [u ''isn't'', u ''wasn't'', u ''was not'', u ''is not'']),
     (u ''can't'', [u ''couldn't'', u ''can't'', u ''cannot'', u ''could not'']),
     (u ''couldn't'', [u ''can't'', u ''couldn't'', u ''could not'', u ''cannot'']),
     (u ''won't'', [u ''wouldn't'', u ''won't'', u ''will not'', u ''would not'']),
     (u ''wouldn't'', [u ''won't'', u ''wouldn't'', u ''would not'', u ''will not''])]"

text \<open>The replacement \<^verbatim>\<open>['']?\<close> for an apostrophe: a bracket class and a question mark.\<close>

definition optional_apostrophe :: ustr where
  "optional_apostrophe = [91, 39, 39, 93, 63]"

text \<open>\<open>sep.join(parts)\<close>.\<close>

fun join :: "ustr \<Rightarrow> ustr list \<Rightarrow> ustr" where
  "join sep [] = []"
| "join sep [p] = p"
| "join sep (p # q # ps) = p @ sep @ join sep (q # ps)"

fun alt_parts :: "ustr list \<Rightarrow> ustr list \<Rightarrow> ustr list" where
  "alt_parts [] parts = parts"
| "alt_parts (alt # alts) parts =
     alt_parts alts
       (if py_in [39] alt then parts @ [py_replace alt [39] optional_apostrophe]
        else parts @ [re_escape alt])"

definition pattern_part :: "ustr list \<Rightarrow> ustr" where
  "pattern_part alts = [40] @ join [124] (alt_parts alts []) @ [41]"

text \<open>
  The loop over \<open>contraction_terms\<close>, left by \<open>break\<close> at the first contraction that
  occurs in the lower-cased query. The result is the pair of \<open>flexible_query\<close> and
  \<open>found_contraction\<close>. As in the exact search, \<open>contraction.lower()\<close> is the literal
  itself.
\<close>

fun terms_loop :: "pylib \<Rightarrow> ustr \<Rightarrow> (ustr \<times> ustr list) list \<Rightarrow> ustr \<times> bool" where
  "terms_loop L normalized_query [] = (normalized_query, False)"
| "terms_loop L normalized_query ((contraction, alts) # rest) =
     (if py_in contraction (py_lower L normalized_query)
      then (re_sub_ignorecase L contraction (pattern_part alts) normalized_query, True)
      else terms_loop L normalized_query rest)"

definition flexible_query :: "pylib \<Rightarrow> ustr \<Rightarrow> ustr" where
  "flexible_query L normalized_query =
     (case terms_loop L normalized_query contraction_terms of
        (flexible, found_contraction) \<Rightarrow>
          if \<not> found_contraction then
            (if py_in [39] flexible then py_replace flexible [39] optional_apostrophe
             else flexible)
          else flexible)"

definition no_options :: regex_options where
  "no_options = \<lparr>ignore_case = None, dot_all = None, unicode = None, max_pattern_length = None\<rparr>"

definition mode_options :: "manager \<Rightarrow> regex_options" where
  "mode_options M =
     (case search_modes M ''regex'' of
        None \<Rightarrow> no_options
      | Some mode \<Rightarrow> get_or (options mode) no_options)"

definition compile_flags :: "regex_options \<Rightarrow> re_flags" where
  "compile_flags regex_options =
     \<lparr>IGNORECASE = get_or (ignore_case regex_options) True,
      DOTALL = get_or (dot_all regex_options) False,
      UNICODE = get_or (unicode regex_options) True\<rparr>"

text \<open>The slice \<open>s[:n]\<close>; a negative \<open>n\<close> counts from the end.\<close>

definition slice_to :: "ustr \<Rightarrow> int \<Rightarrow> ustr" where
  "slice_to s n = (if 0 \<le> n then take (nat n) s else take (length s - nat (- n)) s)"

definition limit_pattern :: "regex_options \<Rightarrow> ustr \<Rightarrow> ustr" where
  "limit_pattern regex_options flexible =
     (let max_length = get_or (max_pattern_length regex_options) 1000
      in if int (length flexible) > max_length then slice_to flexible max_length
         else flexible)"

text \<open>
  The score of a text with at least one match; \<open>first\<close> is \<open>matches[0].start()\<close>.
\<close>

definition regex_score :: "real \<Rightarrow> nat \<Rightarrow> nat \<Rightarrow> ustr \<Rightarrow> real" where
  "regex_score w match_count first normalized_text =
     (let first_pos = real first / real (length normalized_text);
          position_factor = 1 - first_pos
      in w * (0.6 + 0.2 * real (min match_count 5) + 0.2 * position_factor))"

fun regex_loop ::
  "pylib \<Rightarrow> real \<Rightarrow> (ustr \<Rightarrow> nat list) \<Rightarrow> message list \<Rightarrow> (real \<times> message) list
   \<Rightarrow> (real \<times> message) list" where
  "regex_loop L w pattern [] results = results"
| "regex_loop L w pattern (msg # msgs) results =
     (let normalized_text = normalized L (msg_get msg ''text'' [])
      in regex_loop L w pattern msgs
           (if normalized_text \<noteq> [] then
              (case pattern normalized_text of
                 [] \<Rightarrow> results
               | first # others \<Rightarrow>
                   results @ [(regex_score w (length (first # others)) first normalized_text, msg)])
            else results))"

text \<open>
  \<open>_regex_search\<close>: \<open>Inr\<close> is the list returned, \<open>Inl\<close> the exception that leaves the
  function. The \<open>try\<close> block catches \<open>re.error\<close> only.
\<close>

definition regex_search ::
  "pylib \<Rightarrow> manager \<Rightarrow> ustr \<Rightarrow> message list \<Rightarrow> error + (real \<times> message) list" where
  "regex_search L M query messages =
     (let w = mode_weight M ''regex'';
          regex_options = mode_options M;
          normalized_query = normalized L query;
          flexible = flexible_query L normalized_query;
          flags = compile_flags regex_options
      in case re_compile L (limit_pattern regex_options flexible) flags of
           ReError \<Rightarrow> Inr (exact_search L M query messages)
         | Raised e \<Rightarrow> Inl e
         | Compiled pattern \<Rightarrow> Inr (sort_results (regex_loop L w pattern messages [])))"

section \<open>Hybrid search and the dispatcher\<close>

text \<open>\<open>msg_scores[msg_id] += x\<close> on a \<open>defaultdict(float)\<close>.\<close>

fun dict_add :: "'k \<Rightarrow> real \<Rightarrow> ('k \<times> real) list \<Rightarrow> ('k \<times> real) list" where
  "dict_add k x [] = [(k, 0 + x)]"
| "dict_add k x ((k', v) # d) =
     (if k' = k then (k', v + x) # d else (k', v) # dict_add k x d)"

text \<open>
  The loop over the results of one mode; the state is the pair of \<open>all_results\<close> and
  \<open>msg_scores\<close>, and \<open>hw\<close> is the hybrid weight of the mode.
\<close>

fun accumulate ::
  "real \<Rightarrow> (real \<times> message) list \<Rightarrow> (ustr \<times> message) list \<times> (ustr \<times> real) list
   \<Rightarrow> (ustr \<times> message) list \<times> (ustr \<times> real) list" where
  "accumulate hw [] st = st"
| "accumulate hw ((score, msg) # rest) (all_results, msg_scores) =
     (let msg_id = msg_get msg ''name'' []
      in if msg_id \<noteq> [] then
           accumulate hw rest (dict_set msg_id msg all_results, dict_add msg_id (score * hw) msg_scores)
         else accumulate hw rest (all_results, msg_scores))"

text \<open>
  The loop that builds \<open>combined_results\<close>; \<open>all_results[msg_id]\<close> raises \<open>KeyError\<close>
  on a missing key.
\<close>

fun combine ::
  "(ustr \<times> message) list \<Rightarrow> (ustr \<times> real) list \<Rightarrow> (real \<times> message) list
   \<Rightarrow> error + (real \<times> message) list" where
  "combine all_results [] combined = Inr combined"
| "combine all_results ((msg_id, score) # rest) combined =
     (case map_of all_results msg_id of
        None \<Rightarrow> Inl KeyError
      | Some msg \<Rightarrow> combine all_results rest (combined @ [(score, msg)]))"

definition mode_enabled :: "manager \<Rightarrow> string \<Rightarrow> bool" where
  "mode_enabled M name =
     (case search_modes M name of None \<Rightarrow> False | Some mode \<Rightarrow> get_or (enabled mode) False)"

definition hybrid_weight :: "manager \<Rightarrow> string \<Rightarrow> real \<Rightarrow> real" where
  "hybrid_weight M name d = get_or (cfg_hybrid_weights (config M) name) d"

text \<open>
  The two result lists that the hybrid search goes through: the list of a mode that is not
  enabled is not computed, which is the empty list here. An exception that leaves
  \<open>_regex_search\<close> leaves \<open>_hybrid_search\<close> too. \<open>hybrid_state\<close> below is the pair of
  \<open>all_results\<close> and \<open>msg_scores\<close> after both loops.
\<close>

definition exact_results :: "pylib \<Rightarrow> manager \<Rightarrow> ustr \<Rightarrow> message list \<Rightarrow> (real \<times> message) list" where
  "exact_results L M query messages =
     (if mode_enabled M ''exact'' then exact_search L M query messages else [])"

definition regex_results ::
  "pylib \<Rightarrow> manager \<Rightarrow> ustr \<Rightarrow> message list \<Rightarrow> error + (real \<times> message) list" where
  "regex_results L M query messages =
     (if mode_enabled M ''regex'' then regex_search L M query messages else Inr [])"

definition hybrid_state ::
  "pylib \<Rightarrow> manager \<Rightarrow> ustr \<Rightarrow> message list
   \<Rightarrow> error + (ustr \<times> message) list \<times> (ustr \<times> real) list" where
  "hybrid_state L M query0 messages =
     (let query = py_strip L query0;
          st1 = (if mode_enabled M ''exact''
                 then accumulate (hybrid_weight M ''exact'' 1.0)
                        (exact_search L M query messages) ([], [])
                 else ([], []))
      in if mode_enabled M ''regex''
         then (case regex_search L M query messages of
                 Inl e \<Rightarrow> Inl e
               | Inr rs \<Rightarrow> Inr (accumulate (hybrid_weight M ''regex'' 1.2) rs st1))
         else Inr st1)"

definition hybrid_search ::
  "pylib \<Rightarrow> manager \<Rightarrow> ustr \<Rightarrow> message list \<Rightarrow> error + (real \<times> message) list" where
  "hybrid_search L M query0 messages =
     (case hybrid_state L M query0 messages of
        Inl e \<Rightarrow> Inl e
      | Inr (all_results, msg_scores) \<Rightarrow>
          (case combine all_results msg_scores [] of
             Inl e \<Rightarrow> Inl e
           | Inr combined_results \<Rightarrow> Inr (sort_results combined_results)))"

definition search ::
  "pylib \<Rightarrow> manager \<Rightarrow> ustr \<Rightarrow> message list \<Rightarrow> string option \<Rightarrow> error + (real \<times> message) list" where
  "search L M query messages mode0 =
     (let mode1 = (case mode0 of None \<Rightarrow> get_default_mode M | Some m \<Rightarrow> m);
          mode = (if mode1 = ''semantic'' then ''exact'' else mode1)
      in if mode \<noteq> ''hybrid'' \<and> search_modes M mode = None
         then Inr (exact_search L M query messages)
         else if mode = ''hybrid'' then hybrid_search L M query messages
         else if mode = ''exact'' then Inr (exact_search L M query messages)
         else if mode = ''regex'' then regex_search L M query messages
         else Inl ValueError)"

section \<open>An instance of the library on ASCII strings\<close>

text \<open>
  For closed examples the library parameters are instantiated on ASCII strings, where
  NFKD is the identity, \<open>lower\<close> maps \<open>A\<close> to \<open>Z\<close> onto \<open>a\<close> to \<open>z\<close>, \<open>strip\<close>
  removes leading and trailing white space and the regex engine compares letters up to
  case. Its \<open>re_compile\<close> is a small engine. A pattern made of letters, digits and
  spaces matches literally (up to case under \<open>IGNORECASE\<close>), as it does in Python. A
  letter or digit followed by a repetition count in braces that is not below 4294967295
  (the \<open>MAXREPEAT\<close> of CPython), such as \<^verbatim>\<open>a{4294967296}\<close>, raises \<open>OverflowError\<close>, as
  it does in CPython. Every other pattern is rejected with \<open>re.error\<close>, which Python
  does for the malformed ones only, such as one with an open parenthesis that is never
  closed.
\<close>

definition ascii_lower_char :: "codepoint \<Rightarrow> codepoint" where
  "ascii_lower_char c = (if 65 \<le> c \<and> c \<le> 90 then c + 32 else c)"

definition ascii_space :: "codepoint \<Rightarrow> bool" where
  "ascii_space c = (c = 32 \<or> (9 \<le> c \<and> c \<le> 13) \<or> (28 \<le> c \<and> c \<le> 31))"

definition ascii_strip :: "ustr \<Rightarrow> ustr" where
  "ascii_strip s = rev (dropWhile ascii_space (rev (dropWhile ascii_space s)))"

definition ascii_ci :: "codepoint \<Rightarrow> codepoint \<Rightarrow> bool" where
  "ascii_ci p c = (ascii_lower_char p = ascii_lower_char c)"

definition literal_char :: "codepoint \<Rightarrow> bool" where
  "literal_char c =
     (c = 32 \<or> (48 \<le> c \<and> c \<le> 57) \<or> (65 \<le> c \<and> c \<le> 90) \<or> (97 \<le> c \<and> c \<le> 122))"

fun literal_starts ::
  "(codepoint \<Rightarrow> codepoint \<Rightarrow> bool) \<Rightarrow> ustr \<Rightarrow> nat \<Rightarrow> nat \<Rightarrow> ustr \<Rightarrow> nat list" where
  "literal_starts eq pat i k [] = (if pat = [] then [i] else [])"
| "literal_starts eq pat i (Suc k) (c # cs) = literal_starts eq pat (Suc i) k cs"
| "literal_starts eq pat i 0 (c # cs) =
     (if starts_with_ci eq (c # cs) pat
      then i # literal_starts eq pat (Suc i) (length pat - 1) cs
      else literal_starts eq pat (Suc i) 0 cs)"

definition digit_char :: "codepoint \<Rightarrow> bool" where
  "digit_char c = (48 \<le> c \<and> c \<le> 57)"

definition decimal_value :: "ustr \<Rightarrow> nat" where
  "decimal_value ds = foldl (\<lambda>n d. 10 * n + (d - 48)) 0 ds"

text \<open>The count \<open>n\<close> of a pattern of the form \<^verbatim>\<open>c{n}\<close>.\<close>

definition repeat_count :: "ustr \<Rightarrow> nat option" where
  "repeat_count pat =
     (case pat of
        c # b # rest \<Rightarrow>
          (if literal_char c \<and> b = 123 \<and> rest \<noteq> [] \<and> last rest = 125 \<and> butlast rest \<noteq> []
              \<and> list_all digit_char (butlast rest)
           then Some (decimal_value (butlast rest)) else None)
      | _ \<Rightarrow> None)"

definition literal_compile :: "ustr \<Rightarrow> re_flags \<Rightarrow> compiled" where
  "literal_compile pat flags =
     (if list_all literal_char pat
      then Compiled (literal_starts (if IGNORECASE flags then ascii_ci else (=)) pat 0 0)
      else (case repeat_count pat of
              Some n \<Rightarrow> (if 4294967295 \<le> n then Raised OverflowError else ReError)
            | None \<Rightarrow> ReError))"

definition ascii_lib :: pylib where
  "ascii_lib =
     \<lparr>py_nfkd = (\<lambda>s. s), py_lower = map ascii_lower_char, py_strip = ascii_strip,
      re_ci = ascii_ci, re_compile = literal_compile\<rparr>"

section \<open>Notions used in the statements, and examples\<close>

text \<open>The identity of a message: \<open>msg.get("name", "")\<close>.\<close>

definition message_id :: "message \<Rightarrow> ustr" where
  "message_id msg = msg_get msg ''name'' []"

text \<open>A result list is sorted when the scores do not increase along it.\<close>

definition sorted_desc :: "(real \<times> 'a) list \<Rightarrow> bool" where
  "sorted_desc rs = sorted_wrt (\<lambda>a b. fst b \<le> fst a) rs"

text \<open>
  What the results \<open>rs\<close> of one mode add to the running total of the identity \<open>k\<close>
  under the hybrid weight \<open>hw\<close>.
\<close>

definition contribution :: "real \<Rightarrow> ustr \<Rightarrow> (real \<times> message) list \<Rightarrow> real" where
  "contribution hw k rs = (\<Sum>r\<leftarrow>filter (\<lambda>r. message_id (snd r) = k) rs. fst r * hw)"

text \<open>The pattern handed to \<open>re.compile\<close>: the rewritten query, cut to the length limit.\<close>

definition regex_pattern :: "pylib \<Rightarrow> manager \<Rightarrow> ustr \<Rightarrow> ustr" where
  "regex_pattern L M query =
     limit_pattern (mode_options M) (flexible_query L (normalized L query))"

text \<open>A configuration with both modes enabled, and the manager built from it.\<close>

definition example_config :: config where
  "example_config =
     \<lparr>cfg_search_modes =
        [(''exact'', \<lparr>enabled = Some True, weight = Some 1, options = None\<rparr>),
         (''regex'', \<lparr>enabled = Some True, weight = Some 1, options = None\<rparr>)],
      cfg_default_mode = Some ''exact'',
      cfg_hybrid_weights = [''exact'' \<mapsto> 1, ''regex'' \<mapsto> 1.2]\<rparr>"

definition example_manager :: manager where
  "example_manager =
     \<lparr>config = example_config,
      search_modes = initialize_search_modes (cfg_search_modes example_config) Map.empty\<rparr>"

definition msg_ab :: message where
  "msg_ab = [(''name'', u ''m1''), (''text'', u ''ab'')]"

definition msg_b :: message where
  "msg_b = [(''name'', u ''m2''), (''text'', u ''b'')]"

text \<open>The lower-cased, normalised query and message text that the exact search compares.\<close>

definition query_lower :: "pylib \<Rightarrow> ustr \<Rightarrow> ustr" where
  "query_lower L query = py_lower L (normalized L query)"

definition text_lower :: "pylib \<Rightarrow> message \<Rightarrow> ustr" where
  "text_lower L msg = py_lower L (normalized L (msg_get msg ''text'' []))"

text \<open>
  A property of the library that the lower-case ASCII literals of the contraction table
  have in Python: normalisation and \<open>lower()\<close> leave such a string \<open>p\<close> as it is,
  alone and inside any text.
\<close>

definition keeps :: "pylib \<Rightarrow> ustr \<Rightarrow> bool" where
  "keeps L p \<longleftrightarrow>
     py_lower L (normalized L p) = p \<and>
     (\<forall>pre post. py_in p (py_lower L (normalized L (pre @ p @ post))))"

definition msg_did_not :: message where
  "msg_did_not = [(''name'', u ''m3''), (''text'', u ''i did not'')]"

definition msg_dont :: message where
  "msg_dont = [(''name'', u ''m4''), (''text'', u ''Don't'')]"

definition msg_no_text :: message where
  "msg_no_text = [(''name'', u ''m5'')]"


text \<open>The identities that the results of one mode bring in.\<close>
definition result_ids :: "(real \<times> message) list \<Rightarrow> ustr set" where
  "result_ids rs = {message_id (snd r) |r. r \<in> set rs \<and> message_id (snd r) \<noteq> []}"

text \<open>The message remembered for an identity: the last one met.\<close>
definition last_message :: "ustr \<Rightarrow> (real \<times> message) list \<Rightarrow> message option" where
  "last_message k rs =
     (case filter (\<lambda>m. message_id m = k) (map snd rs) of
        [] \<Rightarrow> None
      | m # others \<Rightarrow> Some (last (m # others)))"

text \<open>The entry of the combined results for an identity.\<close>
definition hybrid_entry ::
  "real \<Rightarrow> real \<Rightarrow> (real \<times> message) list \<Rightarrow> (real \<times> message) list \<Rightarrow> ustr \<Rightarrow> real \<times> message" where
  "hybrid_entry h1 h2 r1 r2 k =
     (contribution h1 k r1 + contribution h2 k r2, the (last_message k (r1 @ r2)))"

definition msg_b1 :: message where
  "msg_b1 = [(''name'', u ''m1''), (''text'', u ''b'')]"

text \<open>A configuration whose exact mode has a negative weight, and the manager built from it.\<close>

definition negative_config :: config where
  "negative_config =
     \<lparr>cfg_search_modes = [(''exact'', \<lparr>enabled = Some True, weight = Some (- 1), options = None\<rparr>)],
      cfg_default_mode = Some ''exact'',
      cfg_hybrid_weights = Map.empty\<rparr>"

definition negative_manager :: manager where
  "negative_manager =
     \<lparr>config = negative_config,
      search_modes = [''exact'' \<mapsto> \<lparr>enabled = Some True, weight = Some (- 1), options = None\<rparr>]\<rparr>"

text \<open>The regex engine reports matches that start inside the text or at its end.\<close>
definition engine_in_range :: "pylib \<Rightarrow> bool" where
  "engine_in_range L \<longleftrightarrow>
     (\<forall>pat flags pattern text. re_compile L pat flags = Compiled pattern \<longrightarrow>
        (\<forall>i \<in> set (pattern text). i \<le> length text))"

text \<open>All scores of a result list are non-negative.\<close>

definition nonneg_scores :: "(real \<times> 'a) list \<Rightarrow> bool" where
  "nonneg_scores rs \<longleftrightarrow> (\<forall>r \<in> set rs. 0 \<le> fst r)"

text \<open>The alternation group \<^verbatim>\<open>(didn['']?t|don['']?t|do\ not|did\ not)\<close> of \<open>don't\<close>.\<close>

definition dont_group :: ustr where
  "dont_group =
     u ''(didn['' @ [39, 39] @ u '']?t|don['' @ [39, 39] @ u '']?t|do'' @ [92] @ u '' not|did''
       @ [92] @ u '' not)''"

section \<open>Facts about the string operations and the tables\<close>

lemma starts_with_iff: "starts_with s p \<longleftrightarrow> (\<exists>post. s = p @ post)"
  by (induction s p rule: starts_with.induct) auto

lemma py_in_iff: "py_in sub s \<longleftrightarrow> (\<exists>pre post. s = pre @ sub @ post)"
proof (induction s)
  case Nil
  then show ?case by auto
next
  case (Cons c cs)
  show ?case
  proof
    assume "py_in sub (c # cs)"
    then consider "starts_with (c # cs) sub" | "py_in sub cs" by auto
    then show "\<exists>pre post. c # cs = pre @ sub @ post"
    proof cases
      case 1
      then obtain post where "c # cs = sub @ post" by (auto simp: starts_with_iff)
      then have "c # cs = [] @ sub @ post" by simp
      then show ?thesis by blast
    next
      case 2
      then obtain pre post where "cs = pre @ sub @ post" using Cons.IH by auto
      then have "c # cs = (c # pre) @ sub @ post" by simp
      then show ?thesis by blast
    qed
  next
    assume "\<exists>pre post. c # cs = pre @ sub @ post"
    then obtain pre post where eq: "c # cs = pre @ sub @ post" by blast
    show "py_in sub (c # cs)"
    proof (cases pre)
      case Nil
      with eq have "starts_with (c # cs) sub" by (auto simp: starts_with_iff)
      then show ?thesis by simp
    next
      case (Cons p pre')
      with eq have "cs = pre' @ sub @ post" by simp
      then have "py_in sub cs" using Cons.IH by blast
      then show ?thesis by simp
    qed
  qed
qed

lemma py_in_set: "py_in sub s \<Longrightarrow> set sub \<subseteq> set s"
  by (auto simp: py_in_iff)

lemma py_in_refl: "py_in s s"
  using py_in_iff[of s s] by (metis append_Nil append_Nil2)

lemma py_in_empty: "py_in [] s"
  by (cases s) auto

lemma lookup_eval: "contraction_lookup =
 [(u ''don't'', [u ''didn't'', u ''do not'', u ''did not'']),
     (u ''didn't'', [u ''don't'', u ''did not'', u ''do not'']),
     (u ''isn't'', [u ''wasn't'', u ''is not'', u ''was not'']),
     (u ''wasn't'', [u ''isn't'', u ''was not'', u ''is not'']),
     (u ''can't'', [u ''couldn't'', u ''cannot'', u ''could not'']),
     (u ''couldn't'', [u ''can't'', u ''could not'', u ''cannot'']),
     (u ''won't'', [u ''wouldn't'', u ''will not'', u ''would not'']),
     (u ''wouldn't'', [u ''won't'', u ''would not'', u ''will not'']),
     (u ''aren't'', [u ''weren't'', u ''are not'', u ''were not'']),
     (u ''weren't'', [u ''aren't'', u ''were not'', u ''are not'']),
     (u ''haven't'', [u ''hadn't'', u ''have not'', u ''had not'']),
     (u ''hadn't'', [u ''haven't'', u ''had not'', u ''have not'']),
     (u ''do not'', [u ''don't'', u ''didn't'']),
     (u ''did not'', [u ''don't'', u ''didn't'']),
     (u ''is not'', [u ''isn't'', u ''wasn't'']),
     (u ''was not'', [u ''isn't'', u ''wasn't'']),
     (u ''could not'', [u ''can't'', u ''couldn't'']),
     (u ''will not'', [u ''won't'', u ''wouldn't'']),
     (u ''would not'', [u ''won't'', u ''wouldn't'']),
     (u ''are not'', [u ''aren't'', u ''weren't'']),
     (u ''were not'', [u ''aren't'', u ''weren't'']),
     (u ''have not'', [u ''haven't'', u ''hadn't'']),
     (u ''had not'', [u ''haven't'', u ''hadn't''])]"
  by (simp add: contraction_lookup_def expanded_to_contraction_def contraction_pairs_def u_def)

lemma contraction_loop_none:
  "\<forall>(c, vs) \<in> set tbl. \<not> py_in c ql \<Longrightarrow> contraction_loop ql tbl alts = alts"
  by (induction tbl arbitrary: alts) auto

lemma lookup_keys_marked: "(c, vs) \<in> set contraction_lookup \<Longrightarrow> 39 \<in> set c \<or> 32 \<in> set c"
  unfolding lookup_eval by (auto simp: u_def)

lemma alternatives_plain:
  assumes "39 \<notin> set ql" and "32 \<notin> set ql"
  shows "alternatives ql = [ql]"
proof -
  have "\<forall>(c, vs) \<in> set contraction_lookup. \<not> py_in c ql"
    using assms lookup_keys_marked py_in_set by blast
  then show ?thesis
    by (simp add: alternatives_def contraction_loop_none)
qed

lemma replace_char_absent: "c \<notin> set s \<Longrightarrow> py_replace s [c] new = s"
proof -
  assume "c \<notin> set s"
  then have "replace_go [c] new 0 s = s" by (induction s) auto
  then show ?thesis by (simp add: py_replace_def)
qed

lemma normalized_ascii: "8217 \<notin> set s \<Longrightarrow> 8216 \<notin> set s \<Longrightarrow> normalized ascii_lib s = s"
  by (simp add: normalized_def ascii_lib_def replace_char_absent)

lemma example_modes:
  "search_modes example_manager ''exact'' = Some \<lparr>enabled = Some True, weight = Some 1, options = None\<rparr>"
  "search_modes example_manager ''regex'' = Some \<lparr>enabled = Some True, weight = Some 1, options = None\<rparr>"
  "search_modes example_manager ''unsupported'' = None"
  by (simp_all add: example_manager_def example_config_def get_or_def)

lemma ascii_lib_simps:
  "py_nfkd ascii_lib s = s"
  "py_lower ascii_lib s = map ascii_lower_char s"
  "py_strip ascii_lib s = ascii_strip s"
  "re_ci ascii_lib = ascii_ci"
  "re_compile ascii_lib = literal_compile"
  by (simp_all add: ascii_lib_def)

lemma exact_search_b:
  "exact_search ascii_lib example_manager (u ''b'') [msg_ab, msg_b] = [(1, msg_b), (14 / 15, msg_ab)]"
  by (simp add: exact_search_def Let_def u_def normalized_ascii alternatives_plain ascii_lib_simps
      ascii_lower_char_def mode_weight_def example_modes get_or_def msg_ab_def msg_b_def msg_get_def
      exact_score_def py_count_def py_find_def sort_results_def)

section \<open>Facts about sorting and the hybrid accumulation\<close>

lemma sorted_desc_sort_results: "sorted_desc (sort_results xs)"
proof -
  have "sorted (map (\<lambda>x. - fst x) (sort_key (\<lambda>x. - fst x) xs))"
    by (rule sorted_sort_key)
  then show ?thesis
    by (simp add: sorted_desc_def sort_results_def sorted_map)
qed

lemma map_of_dict_set: "map_of (dict_set k v d) = (map_of d)(k \<mapsto> v)"
  by (induction d) (auto simp: fun_eq_iff)

lemma keys_dict_set:
  "map fst (dict_set k v d) = (if k \<in> fst ` set d then map fst d else map fst d @ [k])"
  by (induction d) force+

lemma map_of_dict_add:
  "map_of (dict_add k x d) = (map_of d)(k \<mapsto> get_or (map_of d k) 0 + x)"
  by (induction d) (auto simp: fun_eq_iff get_or_def)

lemma keys_dict_add:
  "map fst (dict_add k x d) = (if k \<in> fst ` set d then map fst d else map fst d @ [k])"
  by (induction d) force+

lemma key_set_dict_add: "fst ` set (dict_add k x d) = insert k (fst ` set d)"
proof -
  have "set (map fst (dict_add k x d)) = insert k (set (map fst d))"
    by (subst keys_dict_add) auto
  then show ?thesis by simp
qed

lemma accumulate_keys:
  "map fst ar = map fst ms \<Longrightarrow> accumulate hw rs (ar, ms) = (ar', ms') \<Longrightarrow> map fst ar' = map fst ms'"
proof (induction rs arbitrary: ar ms)
  case Nil
  then show ?case by simp
next
  case (Cons r rs)
  obtain s m where r: "r = (s, m)" by (cases r)
  show ?case
  proof (cases "msg_get m ''name'' [] = []")
    case True
    with Cons r show ?thesis by simp
  next
    case False
    let ?k = "msg_get m ''name'' []"
    have "fst ` set ar = fst ` set ms" using Cons.prems(1) by (metis set_map)
    then have "map fst (dict_set ?k m ar) = map fst (dict_add ?k (s * hw) ms)"
      using Cons.prems(1) by (simp add: keys_dict_set keys_dict_add)
    moreover have "accumulate hw rs (dict_set ?k m ar, dict_add ?k (s * hw) ms) = (ar', ms')"
      using Cons.prems(2) r False by (simp add: Let_def)
    ultimately show ?thesis by (rule Cons.IH)
  qed
qed

lemma accumulate_distinct:
  "distinct (map fst ms) \<Longrightarrow> accumulate hw rs (ar, ms) = (ar', ms') \<Longrightarrow> distinct (map fst ms')"
proof (induction rs arbitrary: ar ms)
  case Nil
  then show ?case by simp
next
  case (Cons r rs)
  obtain s m where r: "r = (s, m)" by (cases r)
  show ?case
  proof (cases "msg_get m ''name'' [] = []")
    case True
    with Cons r show ?thesis by simp
  next
    case False
    let ?k = "msg_get m ''name'' []"
    have "distinct (map fst (dict_add ?k (s * hw) ms))"
      using Cons.prems(1) by (auto simp: keys_dict_add)
    moreover have "accumulate hw rs (dict_set ?k m ar, dict_add ?k (s * hw) ms) = (ar', ms')"
      using Cons.prems(2) r False by (simp add: Let_def)
    ultimately show ?thesis by (rule Cons.IH)
  qed
qed

lemma accumulate_scores:
  "k \<noteq> [] \<Longrightarrow> accumulate hw rs (ar, ms) = (ar', ms') \<Longrightarrow>
     get_or (map_of ms' k) 0 = get_or (map_of ms k) 0 + contribution hw k rs"
proof (induction rs arbitrary: ar ms)
  case Nil
  then show ?case by (simp add: contribution_def)
next
  case (Cons r rs)
  obtain s m where r: "r = (s, m)" by (cases r)
  show ?case
  proof (cases "msg_get m ''name'' [] = []")
    case True
    then have "accumulate hw rs (ar, ms) = (ar', ms')" using Cons.prems(2) r by simp
    from Cons.IH[OF Cons.prems(1) this] show ?thesis
      using True r Cons.prems(1) by (simp add: contribution_def message_id_def)
  next
    case False
    let ?k = "msg_get m ''name'' []"
    have "accumulate hw rs (dict_set ?k m ar, dict_add ?k (s * hw) ms) = (ar', ms')"
      using Cons.prems(2) r False by (simp add: Let_def)
    from Cons.IH[OF Cons.prems(1) this] show ?thesis
      using r by (simp add: contribution_def message_id_def map_of_dict_add get_or_def)
  qed
qed

lemma accumulate_key_set:
  "accumulate hw rs (ar, ms) = (ar', ms') \<Longrightarrow>
     fst ` set ms' = fst ` set ms \<union> {message_id (snd r) |r. r \<in> set rs \<and> message_id (snd r) \<noteq> []}"
proof (induction rs arbitrary: ar ms)
  case Nil
  then show ?case by simp
next
  case (Cons r rs)
  obtain s m where r: "r = (s, m)" by (cases r)
  show ?case
  proof (cases "msg_get m ''name'' [] = []")
    case True
    then have "accumulate hw rs (ar, ms) = (ar', ms')" using Cons.prems r by simp
    from Cons.IH[OF this] show ?thesis
      using True r by (auto simp: message_id_def)
  next
    case False
    let ?k = "msg_get m ''name'' []"
    have "accumulate hw rs (dict_set ?k m ar, dict_add ?k (s * hw) ms) = (ar', ms')"
      using Cons.prems r False by (simp add: Let_def)
    from Cons.IH[OF this] have "fst ` set ms' = fst ` set (dict_add ?k (s * hw) ms) \<union>
        {message_id (snd r) |r. r \<in> set rs \<and> message_id (snd r) \<noteq> []}" .
    moreover have "fst ` set (dict_add ?k (s * hw) ms) = insert ?k (fst ` set ms)"
      by (rule key_set_dict_add)
    ultimately show ?thesis
      using False r by (auto simp: message_id_def)
  qed
qed

text \<open>The message remembered for identity k: the last one met.\<close>
lemma accumulate_messages:
  "k \<noteq> [] \<Longrightarrow> accumulate hw rs (ar, ms) = (ar', ms') \<Longrightarrow>
     map_of ar' k =
       (case filter (\<lambda>m. message_id m = k) (map snd rs) of
          [] \<Rightarrow> map_of ar k
        | m # others \<Rightarrow> Some (last (m # others)))"
proof (induction rs arbitrary: ar ms)
  case Nil
  then show ?case by simp
next
  case (Cons r rs)
  obtain s m where r: "r = (s, m)" by (cases r)
  show ?case
  proof (cases "msg_get m ''name'' [] = []")
    case True
    then have "accumulate hw rs (ar, ms) = (ar', ms')" using Cons.prems r by simp
    from Cons.IH[OF Cons.prems(1) this] show ?thesis
      using True r Cons.prems(1) by (simp add: message_id_def)
  next
    case False
    let ?k = "msg_get m ''name'' []"
    have "accumulate hw rs (dict_set ?k m ar, dict_add ?k (s * hw) ms) = (ar', ms')"
      using Cons.prems r False by (simp add: Let_def)
    from Cons.IH[OF Cons.prems(1) this] show ?thesis
      using r by (auto simp: message_id_def map_of_dict_set split: list.splits)
  qed
qed

lemma combine_eq:
  "fst ` set ms \<subseteq> fst ` set ar \<Longrightarrow>
     combine ar ms acc = Inr (acc @ map (\<lambda>(k, s). (s, the (map_of ar k))) ms)"
proof (induction ms arbitrary: acc)
  case Nil
  then show ?case by simp
next
  case (Cons p ms)
  obtain k s where p: "p = (k, s)" by (cases p)
  from Cons.prems p have "k \<in> fst ` set ar" by auto
  then obtain m where m: "map_of ar k = Some m"
    by (metis domD dom_map_of_conv_image_fst)
  have "fst ` set ms \<subseteq> fst ` set ar" using Cons.prems by auto
  from Cons.IH[OF this] show ?case using p m by simp
qed

lemma search_cases:
  "search L M query messages mode = Inl ValueError \<or>
   search L M query messages mode = Inr (exact_search L M query messages) \<or>
   search L M query messages mode = regex_search L M query messages \<or>
   search L M query messages mode = hybrid_search L M query messages"
  by (simp add: search_def Let_def)

section \<open>Facts about the exact search\<close>

lemma alt_loop_find:
  "alt_loop w ql text msg alts =
     (case find (\<lambda>alt. py_in alt text) alts of
        None \<Rightarrow> None
      | Some alt \<Rightarrow> Some (exact_score w ql text alt, msg))"
  by (induction alts) auto

lemma exact_loop_eq:
  "exact_loop L w ql alts msgs results =
     results @ List.map_filter (\<lambda>msg. alt_loop w ql (text_lower L msg) msg alts) msgs"
  by (induction msgs arbitrary: results)
     (auto simp: List.map_filter_simps text_lower_def Let_def split: option.splits)

lemma exact_search_eq:
  "exact_search L M query messages =
     sort_results (List.map_filter
       (\<lambda>msg. alt_loop (mode_weight M ''exact'') (query_lower L query) (text_lower L msg) msg
                (alternatives (query_lower L query))) messages)"
  by (simp add: exact_search_def Let_def exact_loop_eq query_lower_def)

lemma alt_loop_None: "alt_loop w ql text msg alts = None \<longleftrightarrow> (\<forall>alt \<in> set alts. \<not> py_in alt text)"
  by (induction alts) auto

lemma alt_loop_snd: "alt_loop w ql text msg alts = Some r \<Longrightarrow> snd r = msg"
  by (induction alts) (auto split: if_splits)

lemma map_filter_snd:
  "(\<And>x r. f x = Some r \<Longrightarrow> snd r = x) \<Longrightarrow>
     map snd (List.map_filter f xs) = filter (\<lambda>x. f x \<noteq> None) xs"
  by (induction xs) (auto simp: List.map_filter_simps split: option.splits)

lemma mset_sort_results: "mset (sort_results xs) = mset xs"
  by (simp add: sort_results_def)

lemma exact_search_messages:
  "mset (map snd (exact_search L M query messages)) =
     mset (filter (\<lambda>msg. \<exists>alt \<in> set (alternatives (query_lower L query)). py_in alt (text_lower L msg))
            messages)"
proof -
  let ?f = "\<lambda>msg. alt_loop (mode_weight M ''exact'') (query_lower L query) (text_lower L msg) msg
                (alternatives (query_lower L query))"
  have "mset (map snd (exact_search L M query messages)) = mset (map snd (List.map_filter ?f messages))"
    by (simp only: exact_search_eq mset_map mset_sort_results)
  also have "map snd (List.map_filter ?f messages) = filter (\<lambda>x. ?f x \<noteq> None) messages"
    by (rule map_filter_snd) (rule alt_loop_snd)
  finally show ?thesis by (simp add: alt_loop_None)
qed

lemma alternatives_dont:
  "alternatives (u ''don't'') = [u ''don't'', u ''didn't'', u ''do not'', u ''did not'']"
  unfolding alternatives_def lookup_eval by (simp add: u_def py_replace_def)

lemma alternatives_didnt:
  "alternatives (u ''didn't'') = [u ''didn't'', u ''don't'', u ''did not'', u ''do not'']"
  unfolding alternatives_def lookup_eval by (simp add: u_def py_replace_def)

lemma alternatives_did_not:
  "alternatives (u ''did not'') = [u ''did not'', u ''don't'', u ''didn't'']"
  unfolding alternatives_def lookup_eval by (simp add: u_def py_replace_def)

lemma exact_search_member:
  assumes "msg \<in> set messages"
    and "alt \<in> set (alternatives (query_lower L query))"
    and "py_in alt (text_lower L msg)"
  shows "msg \<in> snd ` set (exact_search L M query messages)"
proof -
  have "msg \<in> set (filter (\<lambda>msg. \<exists>alt \<in> set (alternatives (query_lower L query)).
      py_in alt (text_lower L msg)) messages)"
    using assms by auto
  then have "msg \<in># mset (map snd (exact_search L M query messages))"
    by (simp only: exact_search_messages set_mset_mset)
  then show ?thesis by simp
qed

lemma keeps_text:
  assumes "keeps L p" and "py_in p (msg_get msg ''text'' [])"
  shows "py_in p (text_lower L msg)"
proof -
  obtain pre post where "msg_get msg ''text'' [] = pre @ p @ post"
    using assms(2) by (auto simp: py_in_iff)
  then show ?thesis
    using assms(1) by (simp add: keeps_def text_lower_def)
qed

lemma replace_char: "py_replace s [c] [d] = map (\<lambda>x. if x = c then d else x) s"
proof -
  have "replace_go [c] [d] 0 s = map (\<lambda>x. if x = c then d else x) s"
    by (induction s) auto
  then show ?thesis by (simp add: py_replace_def)
qed

lemma keeps_ascii:
  assumes "\<forall>c \<in> set p. ascii_lower_char c = c \<and> c \<noteq> 8217 \<and> c \<noteq> 8216"
  shows "keeps ascii_lib p"
proof -
  define f where "f = (\<lambda>x. ascii_lower_char (if (if x = 8217 then 39 else x) = 8216 then 39
                                               else (if x = 8217 then 39 else x)))"
  have n: "\<And>s. py_lower ascii_lib (normalized ascii_lib s) = map f s"
    by (simp add: normalized_def ascii_lib_simps replace_char f_def)
  have p: "map f p = p"
    using assms by (intro map_idI) (simp add: f_def)
  have "\<And>pre post. py_in p (map f (pre @ p @ post))"
    using p py_in_iff by (metis map_append)
  with n p show ?thesis by (simp add: keeps_def)
qed

lemma keeps_literals:
  "keeps ascii_lib (u ''don't'')" "keeps ascii_lib (u ''didn't'')"
  "keeps ascii_lib (u ''do not'')" "keeps ascii_lib (u ''did not'')"
  by (rule keeps_ascii, simp add: u_def ascii_lower_char_def)+

lemma find_from_empty: "find_from [] i s = int i"
  by (cases s) auto

lemma text_lower_examples:
  "text_lower ascii_lib msg_did_not = u ''i did not''"
  "text_lower ascii_lib msg_dont = u ''don't''"
  "text_lower ascii_lib msg_b = u ''b''"
  by (simp_all add: text_lower_def msg_did_not_def msg_dont_def msg_b_def msg_get_def u_def
      normalized_ascii ascii_lib_simps ascii_lower_char_def)

section \<open>Facts about the hybrid search\<close>

lemma hybrid_state_eq:
  "hybrid_state L M q ms =
     (case regex_results L M (py_strip L q) ms of
        Inl e \<Rightarrow> Inl e
      | Inr R \<Rightarrow>
          Inr (accumulate (hybrid_weight M ''regex'' 1.2) R
                 (accumulate (hybrid_weight M ''exact'' 1.0)
                    (exact_results L M (py_strip L q) ms) ([], []))))"
  by (simp add: hybrid_state_def Let_def exact_results_def regex_results_def split: sum.splits)

lemma hybrid_search_Inl:
  "regex_results L M (py_strip L q) ms = Inl e \<Longrightarrow> hybrid_search L M q ms = Inl e"
  by (simp add: hybrid_search_def hybrid_state_eq)

lemma hybrid_search_Inr:
  assumes "hybrid_search L M q ms = Inr rs"
  obtains R where "regex_results L M (py_strip L q) ms = Inr R"
proof (cases "regex_results L M (py_strip L q) ms")
  case (Inl e)
  from hybrid_search_Inl[OF this] assms show ?thesis by simp
next
  case (Inr R)
  then show ?thesis by (rule that)
qed

lemma accumulate_two:
  assumes "accumulate h2 r2 (accumulate h1 r1 ([], [])) = (ar, sc)"
  shows "distinct (map fst sc)"
    and "map fst ar = map fst sc"
    and "fst ` set sc = result_ids r1 \<union> result_ids r2"
    and "k \<noteq> [] \<Longrightarrow> get_or (map_of sc k) 0 = contribution h1 k r1 + contribution h2 k r2"
    and "k \<noteq> [] \<Longrightarrow> map_of ar k = last_message k (r1 @ r2)"
proof -
  obtain ar1 sc1 where s1: "accumulate h1 r1 ([], []) = (ar1, sc1)"
    by (cases "accumulate h1 r1 ([], [])")
  have s2: "accumulate h2 r2 (ar1, sc1) = (ar, sc)"
    using assms s1 by simp
  have d1: "distinct (map fst sc1)" using accumulate_distinct[OF _ s1] by simp
  show "distinct (map fst sc)" using accumulate_distinct[OF d1 s2] .
  have k1: "map fst ar1 = map fst sc1" using accumulate_keys[OF _ s1] by simp
  show "map fst ar = map fst sc" using accumulate_keys[OF k1 s2] .
  have "fst ` set sc1 = result_ids r1"
    using accumulate_key_set[OF s1] by (simp add: result_ids_def)
  then show "fst ` set sc = result_ids r1 \<union> result_ids r2"
    using accumulate_key_set[OF s2] by (simp add: result_ids_def)
  show "get_or (map_of sc k) 0 = contribution h1 k r1 + contribution h2 k r2" if k: "k \<noteq> []"
    using accumulate_scores[OF k s1] accumulate_scores[OF k s2] by (simp add: get_or_def)
  show "map_of ar k = last_message k (r1 @ r2)" if k: "k \<noteq> []"
  proof -
    have a: "map_of ar1 k = last_message k r1"
      using accumulate_messages[OF k s1] by (simp add: last_message_def split: list.splits)
    show ?thesis
      using accumulate_messages[OF k s2] a
      by (simp add: last_message_def split: list.splits)
  qed
qed

lemma last_message_id: "last_message k rs = Some m \<Longrightarrow> message_id m = k"
proof -
  assume a: "last_message k rs = Some m"
  then obtain x xs where f: "filter (\<lambda>m. message_id m = k) (map snd rs) = x # xs" and m: "m = last (x # xs)"
    by (auto simp: last_message_def split: list.splits)
  have "last (x # xs) \<in> set (x # xs)" by (rule last_in_set) simp
  then have "m \<in> set (filter (\<lambda>m. message_id m = k) (map snd rs))" using f m by simp
  then show ?thesis by simp
qed

lemma result_ids_nonempty: "k \<in> result_ids rs \<Longrightarrow> k \<noteq> []"
  by (auto simp: result_ids_def)

lemma combined_entries:
  assumes "accumulate h2 r2 (accumulate h1 r1 ([], [])) = (ar, sc)"
  shows "map (\<lambda>(k, s). (s, the (map_of ar k))) sc = map (hybrid_entry h1 h2 r1 r2) (map fst sc)"
proof -
  note f = accumulate_two[OF assms]
  have "(s, the (map_of ar k)) = hybrid_entry h1 h2 r1 r2 k" if "(k, s) \<in> set sc" for k s
  proof -
    have "k \<in> fst ` set sc" using that by force
    then have k: "k \<noteq> []" using f(3) result_ids_nonempty by auto
    have "map_of sc k = Some s" using that f(1) by simp
    then have "s = contribution h1 k r1 + contribution h2 k r2"
      using f(4)[OF k] by (simp add: get_or_def)
    then show ?thesis using f(5)[OF k] by (simp add: hybrid_entry_def)
  qed
  then show ?thesis by auto
qed

lemma hybrid_search_eq:
  assumes "regex_results L M (py_strip L q) ms = Inr R"
    and "accumulate (hybrid_weight M ''regex'' 1.2) R
           (accumulate (hybrid_weight M ''exact'' 1.0) (exact_results L M (py_strip L q) ms) ([], []))
         = (ar, sc)"
  shows "hybrid_search L M q ms = Inr (sort_results (map (\<lambda>(k, s). (s, the (map_of ar k))) sc))"
proof -
  have "map fst ar = map fst sc"
    using accumulate_two(2)[OF assms(2)] .
  then have "set (map fst sc) \<subseteq> set (map fst ar)" by simp
  then have "fst ` set sc \<subseteq> fst ` set ar" by simp
  from combine_eq[OF this, of "[]"] show ?thesis
    using assms by (simp add: hybrid_search_def hybrid_state_eq)
qed

lemma hybrid_search_entries:
  assumes "regex_results L M (py_strip L q) ms = Inr R"
  obtains keys where
    "hybrid_search L M q ms =
       Inr (sort_results (map (hybrid_entry (hybrid_weight M ''exact'' 1.0) (hybrid_weight M ''regex'' 1.2)
              (exact_results L M (py_strip L q) ms) R) keys))"
    and "distinct keys"
    and "set keys = result_ids (exact_results L M (py_strip L q) ms) \<union> result_ids R"
proof -
  obtain ar sc where acc: "accumulate (hybrid_weight M ''regex'' 1.2) R
       (accumulate (hybrid_weight M ''exact'' 1.0) (exact_results L M (py_strip L q) ms) ([], []))
       = (ar, sc)"
    by (cases "accumulate (hybrid_weight M ''regex'' 1.2) R
       (accumulate (hybrid_weight M ''exact'' 1.0) (exact_results L M (py_strip L q) ms) ([], []))")
  note f = accumulate_two[OF acc]
  have 1: "hybrid_search L M q ms =
       Inr (sort_results (map (hybrid_entry (hybrid_weight M ''exact'' 1.0) (hybrid_weight M ''regex'' 1.2)
              (exact_results L M (py_strip L q) ms) R) (map fst sc)))"
    using hybrid_search_eq[OF assms acc] combined_entries[OF acc] by simp
  have 3: "set (map fst sc) = result_ids (exact_results L M (py_strip L q) ms) \<union> result_ids R"
    using f(3) by simp
  from 1 f(1) 3 show ?thesis by (rule that)
qed

lemma hybrid_search_sorted: "hybrid_search L M q ms = Inr rs \<Longrightarrow> sorted_desc rs"
proof -
  assume a: "hybrid_search L M q ms = Inr rs"
  then obtain R where "regex_results L M (py_strip L q) ms = Inr R"
    by (rule hybrid_search_Inr)
  from hybrid_search_entries[OF this] a show ?thesis
    by (metis Inr_inject sorted_desc_sort_results)
qed

lemma hybrid_entry_id:
  assumes "k \<in> result_ids r1 \<union> result_ids r2"
  shows "message_id (snd (hybrid_entry h1 h2 r1 r2 k)) = k"
    and "last_message k (r1 @ r2) = Some (snd (hybrid_entry h1 h2 r1 r2 k))"
proof -
  have "\<exists>r \<in> set (r1 @ r2). message_id (snd r) = k"
    using assms unfolding result_ids_def by fastforce
  then have "filter (\<lambda>m. message_id m = k) (map snd (r1 @ r2)) \<noteq> []"
    by (auto simp: filter_empty_conv)
  then obtain x xs where "filter (\<lambda>m. message_id m = k) (map snd (r1 @ r2)) = x # xs"
    by (cases "filter (\<lambda>m. message_id m = k) (map snd (r1 @ r2))") simp_all
  then have m: "last_message k (r1 @ r2) = Some (last (x # xs))"
    unfolding last_message_def by simp
  then show "last_message k (r1 @ r2) = Some (snd (hybrid_entry h1 h2 r1 r2 k))"
    by (simp add: hybrid_entry_def)
  from m show "message_id (snd (hybrid_entry h1 h2 r1 r2 k)) = k"
    using last_message_id[OF m] by (simp add: hybrid_entry_def)
qed

lemma filter_key_distinct: "distinct keys \<Longrightarrow> k \<in> set keys \<Longrightarrow> filter (\<lambda>k'. k' = k) keys = [k]"
  by (induction keys) (auto simp: filter_id_conv filter_empty_conv)

lemma sort_results_single: "sort_results [x] = [x]"
  by (simp add: sort_results_def)

lemma filter_sort_results: "filter P (sort_results xs) = sort_results (filter P xs)"
  by (simp add: sort_results_def filter_sort)

lemma set_sort_results: "set (sort_results xs) = set xs"
  by (simp add: sort_results_def)

lemma contribution_single:
  "filter (\<lambda>r. message_id (snd r) = k) rs = [(s, m)] \<Longrightarrow> contribution hw k rs = s * hw"
  by (simp add: contribution_def)

lemma last_message_both:
  assumes "filter (\<lambda>r. message_id (snd r) = k) r1 = [(s1, m1)]"
    and "filter (\<lambda>r. message_id (snd r) = k) r2 = [(s2, m2)]"
  shows "last_message k (r1 @ r2) = Some m2"
proof -
  have fm: "\<And>rs. filter (\<lambda>m. message_id m = k) (map snd rs) = map snd (filter (\<lambda>r. message_id (snd r) = k) rs)"
    by (simp add: filter_map comp_def)
  have "filter (\<lambda>m. message_id m = k) (map snd (r1 @ r2)) = [m1, m2]"
    unfolding fm by (simp add: assms)
  then show ?thesis
    by (simp add: last_message_def)
qed

lemma regex_pattern_b: "regex_pattern ascii_lib example_manager (u ''b'') = u ''b''"
  by (simp add: regex_pattern_def u_def normalized_ascii flexible_query_def contraction_terms_def
      ascii_lib_simps ascii_lower_char_def limit_pattern_def mode_options_def example_modes get_or_def
      no_options_def)

lemma compile_b:
  "re_compile ascii_lib (u ''b'') (compile_flags (mode_options example_manager))
     = Compiled (literal_starts ascii_ci (u ''b'') 0 0)"
  by (simp add: ascii_lib_simps literal_compile_def u_def literal_char_def compile_flags_def
      mode_options_def example_modes get_or_def no_options_def)

lemma regex_search_b_eq:
  "regex_search ascii_lib example_manager (u ''b'') messages =
     Inr (sort_results (regex_loop ascii_lib 1 (literal_starts ascii_ci (u ''b'') 0 0) messages []))"
  using regex_pattern_b compile_b
  by (simp add: regex_search_def regex_pattern_def Let_def mode_weight_def example_modes get_or_def)

lemma regex_search_b:
  "regex_search ascii_lib example_manager (u ''b'') [msg_ab, msg_b] = Inr [(1, msg_b), (9 / 10, msg_ab)]"
  unfolding regex_search_b_eq
  by (simp add: u_def normalized_ascii msg_ab_def msg_b_def msg_get_def regex_score_def Let_def
      ascii_ci_def ascii_lower_char_def sort_results_def)

lemma regex_search_b1:
  "regex_search ascii_lib example_manager (u ''b'') [msg_ab, msg_b1] = Inr [(1, msg_b1), (9 / 10, msg_ab)]"
  unfolding regex_search_b_eq
  by (simp add: u_def normalized_ascii msg_ab_def msg_b1_def msg_get_def regex_score_def Let_def
      ascii_ci_def ascii_lower_char_def sort_results_def)

lemma exact_search_b1:
  "exact_search ascii_lib example_manager (u ''b'') [msg_ab, msg_b1] = [(1, msg_b1), (14 / 15, msg_ab)]"
  by (simp add: exact_search_def Let_def u_def normalized_ascii alternatives_plain ascii_lib_simps
      ascii_lower_char_def mode_weight_def example_modes get_or_def msg_ab_def msg_b1_def msg_get_def
      exact_score_def py_count_def py_find_def sort_results_def)

lemma example_hybrid:
  "py_strip ascii_lib (u ''b'') = u ''b''"
  "mode_enabled example_manager ''exact''"
  "mode_enabled example_manager ''regex''"
  "hybrid_weight example_manager ''exact'' 1.0 = 1"
  "hybrid_weight example_manager ''regex'' 1.2 = 6 / 5"
  by (simp_all add: ascii_lib_simps ascii_strip_def ascii_space_def u_def mode_enabled_def
      example_modes get_or_def hybrid_weight_def example_manager_def example_config_def)

lemma example_ids:
  "message_id msg_ab = u ''m1''" "message_id msg_b = u ''m2''" "message_id msg_b1 = u ''m1''"
  by (simp_all add: message_id_def msg_get_def msg_ab_def msg_b_def msg_b1_def)

lemma u_m1_m2: "u ''m1'' \<noteq> u ''m2''" "u ''m2'' \<noteq> u ''m1''" "u ''m2'' \<noteq> []" "u ''m1'' \<noteq> []"
  by (simp_all add: u_def)

lemma hybrid_search_returns:
  "regex_results L M (py_strip L q) ms = Inr R \<Longrightarrow> \<exists>rs. hybrid_search L M q ms = Inr rs"
  using hybrid_search_entries[of L M q ms R] by blast

lemma example_enabled:
  "mode_enabled example_manager ''exact'' = True"
  "mode_enabled example_manager ''regex'' = True"
  by (simp_all add: example_hybrid)

lemma hybrid_search_b:
  "hybrid_search ascii_lib example_manager (u ''b'') [msg_ab, msg_b]
     = Inr [(11 / 5, msg_b), (151 / 75, msg_ab)]"
  unfolding hybrid_search_def hybrid_state_def Let_def example_hybrid(1,4,5) example_enabled
    exact_search_b regex_search_b
  by (simp add: Let_def msg_get_def msg_ab_def msg_b_def u_def sort_results_def)

lemma hybrid_search_b1:
  "hybrid_search ascii_lib example_manager (u ''b'') [msg_ab, msg_b1] = Inr [(316 / 75, msg_ab)]"
  unfolding hybrid_search_def hybrid_state_def Let_def example_hybrid(1,4,5) example_enabled
    exact_search_b1 regex_search_b1
  by (simp add: Let_def msg_get_def msg_ab_def msg_b1_def u_def sort_results_def)






section \<open>Facts about the scores and the query rewrite\<close>

lemma find_from_le: "find_from sub i s \<le> int i + int (length s)"
proof (induction s arbitrary: i)
  case Nil
  then show ?case by simp
next
  case (Cons c cs)
  from Cons[of "Suc i"] show ?case by simp
qed

lemma nonneg_scores_Nil: "nonneg_scores []"
  by (simp add: nonneg_scores_def)

lemma exact_score_nonneg:
  assumes "0 \<le> w"
  shows "0 \<le> exact_score w ql text alt"
proof -
  define pf where "pf =
    (if text \<noteq> [] then 1 - real_of_int (py_find text alt) / real (length text + 1) else 0)"
  define S where "S = 0.6 + 0.2 * real (py_count text alt) + 0.2 * pf"
  have "py_find text alt \<le> int (length text)"
    using find_from_le[of alt 0 "text"] by (simp add: py_find_def)
  then have "real_of_int (py_find text alt) \<le> real (length text + 1)"
    by simp
  then have "real_of_int (py_find text alt) / real (length text + 1) \<le> 1"
    by (simp add: divide_le_eq_1)
  then have pf: "0 \<le> pf"
    by (simp add: pf_def)
  have "0 \<le> S"
    unfolding S_def using pf by (intro add_nonneg_nonneg mult_nonneg_nonneg) simp_all
  then have wS: "0 \<le> w * S"
    using assms by (simp add: mult_nonneg_nonneg)
  then have wS9: "0 \<le> w * S * 0.9"
    by (simp add: mult_nonneg_nonneg)
  have "exact_score w ql text alt = (if alt \<noteq> ql then w * S * 0.9 else w * S)"
    unfolding exact_score_def Let_def S_def pf_def ..
  moreover have "0 \<le> (if alt \<noteq> ql then w * S * 0.9 else w * S)"
    by (rule if_split[THEN iffD2]) (intro conjI impI wS wS9)
  ultimately show ?thesis
    by (simp only:)
qed

lemma regex_score_nonneg:
  assumes "0 \<le> w" and "first \<le> length text"
  shows "0 \<le> regex_score w n first text"
proof -
  define S where "S = 0.6 + 0.2 * real (min n 5) + 0.2 * (1 - real first / real (length text))"
  have "real first / real (length text) \<le> 1"
    using assms(2) by (simp add: divide_le_eq_1)
  then have "0 \<le> S"
    unfolding S_def by (intro add_nonneg_nonneg mult_nonneg_nonneg) simp_all
  then have "0 \<le> w * S"
    using assms(1) by (simp add: mult_nonneg_nonneg)
  moreover have "regex_score w n first text = w * S"
    unfolding regex_score_def Let_def S_def ..
  ultimately show ?thesis by simp
qed

lemma nonneg_sort_results: "nonneg_scores (sort_results rs) = nonneg_scores rs"
  by (simp add: nonneg_scores_def sort_results_def)

lemma exact_loop_nonneg:
  "0 \<le> w \<Longrightarrow> nonneg_scores results \<Longrightarrow> nonneg_scores (exact_loop L w ql alts msgs results)"
proof (induction msgs arbitrary: results)
  case Nil
  then show ?case by simp
next
  case (Cons msg msgs)
  let ?text = "py_lower L (normalized L (msg_get msg ''text'' []))"
  have "nonneg_scores (case alt_loop w ql ?text msg alts of None \<Rightarrow> results | Some r \<Rightarrow> results @ [r])"
    using Cons.prems exact_score_nonneg[of w]
    by (auto simp: alt_loop_find nonneg_scores_def split: option.splits)
  then show ?case
    using Cons.IH[OF Cons.prems(1)] by (simp add: Let_def)
qed

lemma exact_search_nonneg:
  "0 \<le> mode_weight M ''exact'' \<Longrightarrow> nonneg_scores (exact_search L M query messages)"
  by (simp add: exact_search_def Let_def nonneg_sort_results exact_loop_nonneg nonneg_scores_Nil)

lemma regex_loop_nonneg:
  assumes "0 \<le> w" and "\<And>text. \<forall>i \<in> set (pattern text). i \<le> length text"
  shows "nonneg_scores results \<Longrightarrow> nonneg_scores (regex_loop L w pattern msgs results)"
proof (induction msgs arbitrary: results)
  case Nil
  then show ?case by simp
next
  case (Cons msg msgs)
  let ?text = "normalized L (msg_get msg ''text'' [])"
  have "nonneg_scores (if ?text \<noteq> [] then
              (case pattern ?text of
                 [] \<Rightarrow> results
               | first # others \<Rightarrow>
                   results @ [(regex_score w (length (first # others)) first ?text, msg)])
            else results)"
  proof (cases "pattern ?text")
    case Nil
    then show ?thesis using Cons.prems by simp
  next
    case (Cons first others)
    then have "first \<le> length ?text" using assms(2)[of ?text] by simp
    then have "0 \<le> regex_score w (length (first # others)) first ?text"
      using assms(1) by (rule regex_score_nonneg[rotated])
    then show ?thesis
      using Cons Cons.prems by (simp add: nonneg_scores_def)
  qed
  then show ?case
    using Cons.IH by (simp add: Let_def)
qed

lemma regex_search_nonneg:
  assumes "0 \<le> mode_weight M ''exact''" and "0 \<le> mode_weight M ''regex''"
    and "engine_in_range L" and "regex_search L M query messages = Inr rs"
  shows "nonneg_scores rs"
proof (cases "re_compile L (regex_pattern L M query) (compile_flags (mode_options M))")
  case ReError
  then have "rs = exact_search L M query messages"
    using assms(4) by (simp add: regex_search_def regex_pattern_def Let_def)
  then show ?thesis
    using exact_search_nonneg[OF assms(1)] by simp
next
  case (Raised e)
  then show ?thesis
    using assms(4) by (simp add: regex_search_def regex_pattern_def Let_def)
next
  case (Compiled pattern)
  then have "\<And>text. \<forall>i \<in> set (pattern text). i \<le> length text"
    using assms(3) unfolding engine_in_range_def by blast
  from regex_loop_nonneg[OF assms(2) this, OF nonneg_scores_Nil]
  have "nonneg_scores (sort_results (regex_loop L (mode_weight M ''regex'') pattern messages []))"
    by (simp add: nonneg_sort_results)
  moreover have "rs = sort_results (regex_loop L (mode_weight M ''regex'') pattern messages [])"
    using Compiled assms(4) by (simp add: regex_search_def regex_pattern_def Let_def)
  ultimately show ?thesis by simp
qed

lemma contribution_nonneg:
  assumes "0 \<le> hw" and "nonneg_scores rs"
  shows "0 \<le> contribution hw k rs"
  unfolding contribution_def
  using assms by (intro sum_list_nonneg) (auto simp: nonneg_scores_def)

lemma hybrid_search_nonneg:
  assumes "0 \<le> mode_weight M ''exact''" and "0 \<le> mode_weight M ''regex''"
    and "0 \<le> hybrid_weight M ''exact'' 1.0" and "0 \<le> hybrid_weight M ''regex'' 1.2"
    and "engine_in_range L" and "hybrid_search L M query messages = Inr rs"
  shows "nonneg_scores rs"
proof -
  let ?E = "exact_results L M (py_strip L query) messages"
  obtain R where R: "regex_results L M (py_strip L query) messages = Inr R"
    using assms(6) by (rule hybrid_search_Inr)
  have e: "nonneg_scores ?E"
    using exact_search_nonneg[OF assms(1)] by (simp add: exact_results_def nonneg_scores_Nil)
  have r: "nonneg_scores R"
  proof (cases "mode_enabled M ''regex''")
    case True
    then have "regex_search L M (py_strip L query) messages = Inr R"
      using R by (simp add: regex_results_def)
    then show ?thesis by (rule regex_search_nonneg[OF assms(1,2,5)])
  next
    case False
    then show ?thesis using R by (simp add: regex_results_def nonneg_scores_Nil)
  qed
  obtain keys where "hybrid_search L M query messages =
       Inr (sort_results (map (hybrid_entry (hybrid_weight M ''exact'' 1.0) (hybrid_weight M ''regex'' 1.2)
              ?E R) keys))"
    using hybrid_search_entries[OF R] by blast
  then have rs: "rs = sort_results (map (hybrid_entry (hybrid_weight M ''exact'' 1.0)
      (hybrid_weight M ''regex'' 1.2) ?E R) keys)"
    using assms(6) by simp
  have "\<And>k. 0 \<le> fst (hybrid_entry (hybrid_weight M ''exact'' 1.0) (hybrid_weight M ''regex'' 1.2) ?E R k)"
    using contribution_nonneg[OF assms(3) e] contribution_nonneg[OF assms(4) r]
    by (simp add: hybrid_entry_def)
  then show ?thesis
    unfolding rs nonneg_sort_results by (simp add: nonneg_scores_def)
qed

lemma literal_starts_le: "j \<in> set (literal_starts eq pat i k s) \<Longrightarrow> j \<le> i + length s"
  by (induction eq pat i k s rule: literal_starts.induct) (auto split: if_splits)

lemma engine_in_range_ascii: "engine_in_range ascii_lib"
  unfolding engine_in_range_def ascii_lib_simps literal_compile_def
  using literal_starts_le[of _ _ _ 0 0] by (auto split: if_splits option.splits)

lemma example_weights:
  "mode_weight example_manager ''exact'' = 1" "mode_weight example_manager ''regex'' = 1"
  "hybrid_weight example_manager ''exact'' 1 = 1"
  "hybrid_weight example_manager ''regex'' (6 / 5) = 6 / 5"
  by (simp_all add: mode_weight_def example_modes get_or_def hybrid_weight_def
      example_manager_def example_config_def)

lemma alt_parts_eq:
  "alt_parts alts parts =
     parts @ map (\<lambda>alt. if py_in [39] alt then py_replace alt [39] optional_apostrophe
                         else re_escape alt) alts"
  by (induction alts arbitrary: parts) auto

lemma terms_loop_find:
  "terms_loop L nq tbl =
     (case find (\<lambda>(contraction, alts). py_in contraction (py_lower L nq)) tbl of
        None \<Rightarrow> (nq, False)
      | Some (contraction, alts) \<Rightarrow> (re_sub_ignorecase L contraction (pattern_part alts) nq, True))"
  by (induction tbl) auto

lemma py_in_single: "py_in [c] s \<longleftrightarrow> c \<in> set s"
  by (induction s) auto

lemma replace_char_all:
  "py_replace s [c] new = concat (map (\<lambda>x. if x = c then new else [x]) s)"
proof -
  have "replace_go [c] new 0 s = concat (map (\<lambda>x. if x = c then new else [x]) s)"
    by (induction s) auto
  then show ?thesis by (simp add: py_replace_def)
qed

lemma dont_group_eq:
  "pattern_part [u ''didn't'', u ''don't'', u ''do not'', u ''did not''] = dont_group"
  by (simp add: pattern_part_def dont_group_def u_def py_replace_def optional_apostrophe_def
      re_escape_def re_special_def)

lemma flexible_dont_dont:
  "flexible_query ascii_lib (u ''don't don't'') = dont_group @ u '' '' @ dont_group"
proof -
  have "terms_loop ascii_lib (u ''don't don't'') contraction_terms =
      (re_sub_ignorecase ascii_lib (u ''don't'') dont_group (u ''don't don't''), True)"
    unfolding contraction_terms_def terms_loop.simps dont_group_eq
    by (simp add: ascii_lib_simps u_def ascii_lower_char_def)
  moreover have "re_sub_ignorecase ascii_lib (u ''don't'') dont_group (u ''don't don't'')
      = dont_group @ u '' '' @ dont_group"
    by (simp add: re_sub_ignorecase_def ascii_lib_simps u_def ascii_ci_def ascii_lower_char_def)
  ultimately show ?thesis
    by (simp add: flexible_query_def)
qed

section \<open>The claims\<close>

text \<open>
  Claim C1 (exact-search scoring). \<open>_exact_search\<close> returns, sorted, one result for each
  message whose normalised, lower-cased text contains one of the alternatives of the
  query, and none for the other messages. The score is
  \<open>weight * (0.6 + 0.2 * matchCount + 0.2 * positionFactor)\<close> for the first alternative,
  in the order of the list, that occurs in the text: \<open>matchCount\<close> is what \<open>count\<close>
  gives for it (occurrences that do not overlap), \<open>positionFactor\<close> is
  \<open>1 - find / (len + 1)\<close>, or 0 for an empty text, and the score is multiplied by 0.9
  when that alternative is not the lower-cased query itself.
\<close>

theorem exact_search_scoring:
  "exact_search L M query messages =
     sort_results (List.map_filter
       (\<lambda>msg. case find (\<lambda>alt. py_in alt (text_lower L msg)) (alternatives (query_lower L query)) of
                None \<Rightarrow> None
              | Some alt \<Rightarrow>
                  Some (mode_weight M ''exact'' *
                          (0.6 + 0.2 * real (py_count (text_lower L msg) alt)
                           + 0.2 * (if text_lower L msg = [] then 0
                                    else 1 - real_of_int (py_find (text_lower L msg) alt)
                                             / real (length (text_lower L msg) + 1)))
                          * (if alt = query_lower L query then 1 else 0.9),
                        msg))
       messages) \<and>
   mset (map snd (exact_search L M query messages)) =
     mset (filter (\<lambda>msg. \<exists>alt \<in> set (alternatives (query_lower L query)). py_in alt (text_lower L msg))
            messages)"
proof
  have score: "\<And>w ql text alt. exact_score w ql text alt =
      w * (0.6 + 0.2 * real (py_count text alt)
           + 0.2 * (if text = [] then 0
                    else 1 - real_of_int (py_find text alt) / real (length text + 1)))
        * (if alt = ql then 1 else 0.9)"
    by (simp add: exact_score_def Let_def)
  show "exact_search L M query messages =
     sort_results (List.map_filter
       (\<lambda>msg. case find (\<lambda>alt. py_in alt (text_lower L msg)) (alternatives (query_lower L query)) of
                None \<Rightarrow> None
              | Some alt \<Rightarrow>
                  Some (mode_weight M ''exact'' *
                          (0.6 + 0.2 * real (py_count (text_lower L msg) alt)
                           + 0.2 * (if text_lower L msg = [] then 0
                                    else 1 - real_of_int (py_find (text_lower L msg) alt)
                                             / real (length (text_lower L msg) + 1)))
                          * (if alt = query_lower L query then 1 else 0.9),
                        msg))
       messages)"
    by (simp only: exact_search_eq alt_loop_find score)
  show "mset (map snd (exact_search L M query messages)) =
     mset (filter (\<lambda>msg. \<exists>alt \<in> set (alternatives (query_lower L query)). py_in alt (text_lower L msg))
            messages)"
    by (rule exact_search_messages)
qed

theorem exact_search_scoring_witness:
  "exact_search ascii_lib example_manager (u ''don't'') [msg_did_not, msg_dont, msg_b]
     = [(1, msg_dont), (108 / 125, msg_did_not)]"
proof -
  have ql: "query_lower ascii_lib (u ''don't'') = u ''don't''"
    using keeps_literals(1) by (simp add: keeps_def query_lower_def)
  have w: "mode_weight example_manager ''exact'' = 1"
    by (simp add: mode_weight_def example_modes get_or_def)
  show ?thesis
    using exact_search_scoring [of ascii_lib example_manager "u ''don't''" "[msg_did_not, msg_dont, msg_b]"]
    unfolding ql w alternatives_dont
    by (simp add: List.map_filter_simps text_lower_examples u_def py_count_def py_find_def
        sort_results_def)
qed




text \<open>
  Claim C3 (hybrid score accumulation). A list returned by \<open>_hybrid_search\<close> holds at most
  one entry for each identity (the \<open>name\<close> of the message), no entry with a missing or
  empty identity, and exactly the non-empty identities found by the enabled modes. The
  score of an entry is the sum, over the results of the exact search with that identity, of
  score times \<open>hybrid_weights.exact\<close> (default 1.0), plus the sum, over the results of the
  regex search with that identity, of score times \<open>hybrid_weights.regex\<close> (default 1.2);
  a disabled mode contributes nothing. So a message found once by each mode gets the sum
  of its two weighted scores. (\<open>_hybrid_search\<close> returns a list whenever its regex search
  does, see \<open>hybrid_search_returns\<close>.)
\<close>

theorem hybrid_score_accumulation:
  assumes "hybrid_search L M query messages = Inr rs"
  shows "\<exists>R. regex_results L M (py_strip L query) messages = Inr R \<and>
     (let E = exact_results L M (py_strip L query) messages;
          we = hybrid_weight M ''exact'' 1.0;
          wr = hybrid_weight M ''regex'' 1.2
      in distinct (map (\<lambda>r. message_id (snd r)) rs) \<and>
         (\<forall>r \<in> set rs. message_id (snd r) \<noteq> [] \<and>
            fst r = contribution we (message_id (snd r)) E + contribution wr (message_id (snd r)) R) \<and>
         (\<lambda>r. message_id (snd r)) ` set rs = result_ids E \<union> result_ids R \<and>
         (\<forall>k se me sr mr.
            filter (\<lambda>r. message_id (snd r) = k) E = [(se, me)] \<and>
            filter (\<lambda>r. message_id (snd r) = k) R = [(sr, mr)] \<and> k \<noteq> []
            \<longrightarrow> (se * we + sr * wr, mr) \<in> set rs))"
proof -
  define E where "E = exact_results L M (py_strip L query) messages"
  define we where "we = hybrid_weight M ''exact'' 1.0"
  define wr where "wr = hybrid_weight M ''regex'' 1.2"
  obtain R where R: "regex_results L M (py_strip L query) messages = Inr R"
    using assms by (rule hybrid_search_Inr)
  obtain keys where hs: "hybrid_search L M query messages =
       Inr (sort_results (map (hybrid_entry we wr E R) keys))"
    and dk: "distinct keys" and sk: "set keys = result_ids E \<union> result_ids R"
    using hybrid_search_entries[OF R] unfolding E_def we_def wr_def by blast
  have rs: "rs = sort_results (map (hybrid_entry we wr E R) keys)"
    using hs assms by simp
  have "map (\<lambda>k. message_id (snd (hybrid_entry we wr E R k))) keys = keys"
    by (rule map_idI) (use hybrid_entry_id(1)[of _ E R we wr] sk in auto)
  then have ids: "map (\<lambda>r. message_id (snd r)) (map (hybrid_entry we wr E R) keys) = keys"
    by (simp add: comp_def)
  have "mset (map (\<lambda>r. message_id (snd r)) rs)
      = mset (map (\<lambda>r. message_id (snd r)) (map (hybrid_entry we wr E R) keys))"
    unfolding rs by (simp only: mset_map mset_sort_results)
  then have "mset (map (\<lambda>r. message_id (snd r)) rs) = mset keys"
    by (simp only: ids)
  from mset_eq_imp_distinct_iff[OF this] dk
  have 1: "distinct (map (\<lambda>r. message_id (snd r)) rs)"
    by simp
  have 2: "\<forall>r \<in> set rs. message_id (snd r) \<noteq> [] \<and>
           fst r = contribution we (message_id (snd r)) E + contribution wr (message_id (snd r)) R"
  proof
    fix r assume "r \<in> set rs"
    then obtain k where k: "k \<in> set keys" and r: "r = hybrid_entry we wr E R k"
      unfolding rs by (auto simp: set_sort_results)
    have "message_id (snd r) = k" using hybrid_entry_id(1)[of k E R we wr] k sk r by simp
    moreover have "k \<noteq> []" using k sk result_ids_nonempty by auto
    moreover have "fst r = contribution we k E + contribution wr k R"
      using r by (simp add: hybrid_entry_def)
    ultimately show "message_id (snd r) \<noteq> [] \<and>
           fst r = contribution we (message_id (snd r)) E + contribution wr (message_id (snd r)) R"
      by simp
  qed
  have "(\<lambda>r. message_id (snd r)) ` set rs = set (map (\<lambda>r. message_id (snd r)) (map (hybrid_entry we wr E R) keys))"
    unfolding rs by (simp only: set_sort_results set_map)
  then have 3: "(\<lambda>r. message_id (snd r)) ` set rs = result_ids E \<union> result_ids R"
    by (simp only: ids sk)
  have 4: "(se * we + sr * wr, mr) \<in> set rs"
    if e: "filter (\<lambda>r. message_id (snd r) = k) E = [(se, me)]"
    and r: "filter (\<lambda>r. message_id (snd r) = k) R = [(sr, mr)]" and k: "k \<noteq> []"
    for k se me sr mr
  proof -
    have "(sr, mr) \<in> set (filter (\<lambda>r. message_id (snd r) = k) R)" using r by simp
    then have "(sr, mr) \<in> set R" and "message_id mr = k" by auto
    then have "k \<in> result_ids R" using k unfolding result_ids_def by force
    then have "k \<in> set keys" using sk by simp
    then have "hybrid_entry we wr E R k \<in> set rs"
      unfolding rs by (simp add: set_sort_results)
    moreover have "hybrid_entry we wr E R k = (se * we + sr * wr, mr)"
      by (simp add: hybrid_entry_def contribution_single[OF e] contribution_single[OF r]
          last_message_both[OF e r])
    ultimately show ?thesis by simp
  qed
  have 5: "\<forall>k se me sr mr.
           filter (\<lambda>r. message_id (snd r) = k) E = [(se, me)] \<and>
           filter (\<lambda>r. message_id (snd r) = k) R = [(sr, mr)] \<and> k \<noteq> []
           \<longrightarrow> (se * we + sr * wr, mr) \<in> set rs"
    using 4 by blast
  show ?thesis
    unfolding Let_def E_def[symmetric] we_def[symmetric] wr_def[symmetric]
    by (rule exI[of _ R]) (intro conjI R 1 2 3 5)
qed

theorem hybrid_score_accumulation_witness:
  "hybrid_search ascii_lib example_manager (u ''b'') [msg_ab, msg_b]
     = Inr [(11 / 5, msg_b), (151 / 75, msg_ab)] \<and>
   (11 / 5, msg_b) \<in> set [(11 / 5, msg_b), (151 / 75 :: real, msg_ab)] \<and>
   distinct (map (\<lambda>r. message_id (snd r)) [(11 / 5, msg_b), (151 / 75 :: real, msg_ab)])"
proof -
  let ?rs = "[(11 / 5, msg_b), (151 / 75 :: real, msg_ab)]"
  have e: "filter (\<lambda>r. message_id (snd r) = u ''m2'')
             (exact_results ascii_lib example_manager (u ''b'') [msg_ab, msg_b]) = [(1, msg_b)]"
    by (simp add: exact_results_def example_hybrid exact_search_b example_ids u_m1_m2)
  have rr: "regex_results ascii_lib example_manager (u ''b'') [msg_ab, msg_b]
      = Inr [(1, msg_b), (9 / 10, msg_ab)]"
    by (simp add: regex_results_def example_hybrid regex_search_b)
  have r: "filter (\<lambda>r. message_id (snd r) = u ''m2'') [(1, msg_b), (9 / 10 :: real, msg_ab)]
      = [(1, msg_b)]"
    by (simp add: example_ids u_m1_m2)
  note t = hybrid_score_accumulation [OF hybrid_search_b, unfolded Let_def example_hybrid rr]
  obtain R where R: "Inr [(1, msg_b), (9 / 10, msg_ab)] = (Inr R :: error + (real \<times> message) list)"
    and d: "distinct (map (\<lambda>r. message_id (snd r)) ?rs)"
    and b: "\<forall>k se me sr mr.
           filter (\<lambda>r. message_id (snd r) = k)
             (exact_results ascii_lib example_manager (u ''b'') [msg_ab, msg_b]) = [(se, me)] \<and>
           filter (\<lambda>r. message_id (snd r) = k) R = [(sr, mr)] \<and> k \<noteq> []
           \<longrightarrow> (se * 1 + sr * (6 / 5), mr) \<in> set ?rs"
    using t by (elim exE conjE) (rule that; assumption)
  from R have R': "R = [(1, msg_b), (9 / 10, msg_ab)]" by simp
  have "(1 * 1 + 1 * (6 / 5), msg_b) \<in> set ?rs"
    by (rule b[rule_format, of "u ''m2''" 1 msg_b 1 msg_b, OF conjI[OF e conjI[OF r[folded R'] u_m1_m2(3)]]])
  then have "(11 / 5, msg_b) \<in> set ?rs" by simp
  with hybrid_search_b d show ?thesis by blast
qed

text \<open>
  Claim C4 (sortedness). The list returned by \<open>_exact_search\<close> is sorted by non-increasing
  score, and so is every list that \<open>_regex_search\<close>, \<open>_hybrid_search\<close> or \<open>search\<close>
  returns.
\<close>

theorem results_sorted:
  "sorted_desc (exact_search L M query messages) \<and>
   (\<forall>rs. regex_search L M query messages = Inr rs \<longrightarrow> sorted_desc rs) \<and>
   (\<forall>rs. hybrid_search L M query messages = Inr rs \<longrightarrow> sorted_desc rs) \<and>
   (\<forall>rs. search L M query messages mode = Inr rs \<longrightarrow> sorted_desc rs)"
proof -
  have e: "sorted_desc (exact_search L M query messages)"
    by (simp add: exact_search_def Let_def sorted_desc_sort_results)
  have r: "sorted_desc rs" if "regex_search L M query messages = Inr rs" for rs
    using that e
    by (auto simp: regex_search_def Let_def sorted_desc_sort_results split: compiled.splits)
  have h: "sorted_desc rs" if "hybrid_search L M query messages = Inr rs" for rs
    using that by (rule hybrid_search_sorted)
  have s: "sorted_desc rs" if "search L M query messages mode = Inr rs" for rs
    using search_cases[of L M query messages mode] that e r h by auto
  from e r h s show ?thesis by blast
qed

theorem results_sorted_witness:
  "regex_search ascii_lib example_manager (u ''b'') [msg_ab, msg_b]
     = Inr [(1, msg_b), (9 / 10, msg_ab)] \<and>
   hybrid_search ascii_lib example_manager (u ''b'') [msg_ab, msg_b]
     = Inr [(11 / 5, msg_b), (151 / 75, msg_ab)] \<and>
   search ascii_lib example_manager (u ''b'') [msg_ab, msg_b] (Some ''hybrid'')
     = Inr [(11 / 5, msg_b), (151 / 75, msg_ab)] \<and>
   sorted_desc (exact_search ascii_lib example_manager (u ''b'') [msg_ab, msg_b]) \<and>
   sorted_desc [(1, msg_b), (9 / 10 :: real, msg_ab)] \<and>
   sorted_desc [(11 / 5, msg_b), (151 / 75 :: real, msg_ab)]"
proof -
  have s: "search ascii_lib example_manager (u ''b'') [msg_ab, msg_b] (Some ''hybrid'')
     = Inr [(11 / 5, msg_b), (151 / 75, msg_ab)]"
    by (simp add: search_def Let_def hybrid_search_b)
  note t = results_sorted [of ascii_lib example_manager "u ''b''" "[msg_ab, msg_b]" "Some ''hybrid''"]
  from t have 1: "sorted_desc (exact_search ascii_lib example_manager (u ''b'') [msg_ab, msg_b])"
    by (rule conjunct1)
  from t regex_search_b have 2: "sorted_desc [(1, msg_b), (9 / 10 :: real, msg_ab)]"
    by blast
  from t s have 3: "sorted_desc [(11 / 5, msg_b), (151 / 75 :: real, msg_ab)]"
    by blast
  from regex_search_b hybrid_search_b s 1 2 3 show ?thesis by blast
qed

text \<open>
  Claim C5 (unknown or disabled mode). For a mode name other than \<open>hybrid\<close> that is not
  a key of \<open>search_modes\<close>, \<open>search\<close> raises nothing and returns what \<open>_exact_search\<close>
  returns for the same query and messages.
\<close>

theorem search_unknown_mode_falls_back:
  assumes "mode \<noteq> ''hybrid''" and "search_modes M mode = None"
  shows "search L M query messages (Some mode) = Inr (exact_search L M query messages)"
  using assms by (simp add: search_def Let_def)

theorem search_unknown_mode_falls_back_witness:
  "''unsupported'' \<noteq> ''hybrid'' \<and> search_modes example_manager ''unsupported'' = None \<and>
   search ascii_lib example_manager (u ''b'') [msg_ab, msg_b] (Some ''unsupported'')
     = Inr [(1, msg_b), (14 / 15, msg_ab)]"
  using search_unknown_mode_falls_back [of "''unsupported''" example_manager ascii_lib "u ''b''" "[msg_ab, msg_b]"]
  by (simp add: example_modes exact_search_b)

text \<open>
  Claim C6 (contraction equivalence). Under exact search the query \<open>don't\<close> returns every
  message whose text contains \<open>did not\<close>, \<open>didn't\<close> or \<open>do not\<close>, and the query
  \<open>didn't\<close> returns every message whose text contains \<open>don't\<close>; the expanded form
  \<open>did not\<close> is a key of the table too, so that query returns the messages containing
  \<open>don't\<close> as well.
\<close>

theorem contraction_equivalence:
  assumes "keeps L (u ''don't'')" and "keeps L (u ''didn't'')"
    and "keeps L (u ''do not'')" and "keeps L (u ''did not'')"
    and "msg \<in> set messages"
  shows "(py_in (u ''did not'') (msg_get msg ''text'' []) \<or>
          py_in (u ''didn't'') (msg_get msg ''text'' []) \<or>
          py_in (u ''do not'') (msg_get msg ''text'' [])
            \<longrightarrow> msg \<in> snd ` set (exact_search L M (u ''don't'') messages)) \<and>
         (py_in (u ''don't'') (msg_get msg ''text'' [])
            \<longrightarrow> msg \<in> snd ` set (exact_search L M (u ''didn't'') messages)) \<and>
         (py_in (u ''don't'') (msg_get msg ''text'' [])
            \<longrightarrow> msg \<in> snd ` set (exact_search L M (u ''did not'') messages))"
proof -
  have q1: "alternatives (query_lower L (u ''don't'')) =
      [u ''don't'', u ''didn't'', u ''do not'', u ''did not'']"
    using assms(1) by (simp add: keeps_def query_lower_def alternatives_dont)
  have q2: "alternatives (query_lower L (u ''didn't'')) =
      [u ''didn't'', u ''don't'', u ''did not'', u ''do not'']"
    using assms(2) by (simp add: keeps_def query_lower_def alternatives_didnt)
  have q3: "alternatives (query_lower L (u ''did not'')) = [u ''did not'', u ''don't'', u ''didn't'']"
    using assms(4) by (simp add: keeps_def query_lower_def alternatives_did_not)
  have m: "\<And>p q. keeps L p \<Longrightarrow> py_in p (msg_get msg ''text'' []) \<Longrightarrow>
      p \<in> set (alternatives (query_lower L q)) \<Longrightarrow> msg \<in> snd ` set (exact_search L M q messages)"
    using exact_search_member[OF assms(5)] keeps_text by blast
  have a: "py_in (u ''did not'') (msg_get msg ''text'' []) \<Longrightarrow>
      msg \<in> snd ` set (exact_search L M (u ''don't'') messages)"
    by (rule m[OF assms(4)]) (simp_all only: q1 list.set_intros)
  have b: "py_in (u ''didn't'') (msg_get msg ''text'' []) \<Longrightarrow>
      msg \<in> snd ` set (exact_search L M (u ''don't'') messages)"
    by (rule m[OF assms(2)]) (simp_all only: q1 list.set_intros)
  have c: "py_in (u ''do not'') (msg_get msg ''text'' []) \<Longrightarrow>
      msg \<in> snd ` set (exact_search L M (u ''don't'') messages)"
    by (rule m[OF assms(3)]) (simp_all only: q1 list.set_intros)
  have d: "py_in (u ''don't'') (msg_get msg ''text'' []) \<Longrightarrow>
      msg \<in> snd ` set (exact_search L M (u ''didn't'') messages)"
    by (rule m[OF assms(1)]) (simp_all only: q2 list.set_intros)
  have e: "py_in (u ''don't'') (msg_get msg ''text'' []) \<Longrightarrow>
      msg \<in> snd ` set (exact_search L M (u ''did not'') messages)"
    by (rule m[OF assms(1)]) (simp_all only: q3 list.set_intros)
  from a b c d e show ?thesis by blast
qed

theorem contraction_equivalence_witness:
  "keeps ascii_lib (u ''don't'') \<and> keeps ascii_lib (u ''didn't'') \<and>
   keeps ascii_lib (u ''do not'') \<and> keeps ascii_lib (u ''did not'') \<and>
   msg_did_not \<in> set [msg_b, msg_did_not] \<and>
   py_in (u ''did not'') (msg_get msg_did_not ''text'' []) \<and>
   msg_did_not \<in> snd ` set (exact_search ascii_lib example_manager (u ''don't'') [msg_b, msg_did_not])"
proof -
  have t: "py_in (u ''did not'') (msg_get msg_did_not ''text'' [])"
    by (simp add: msg_did_not_def msg_get_def u_def)
  have i: "msg_did_not \<in> set [msg_b, msg_did_not]" by simp
  from contraction_equivalence [OF keeps_literals i, of example_manager] t i keeps_literals
  show ?thesis by blast
qed

text \<open>
  Claim C7 (regex query rewrite), as amended. In \<open>_regex_search\<close>, if a contraction of the
  table of eight occurs in the lower-cased normalised query, then for the first such
  contraction in the order of the table \<^emph>\<open>every\<close> stretch of the query that matches it up
  to case is replaced by the alternation group of its variants: a variant with an
  apostrophe has each apostrophe rewritten as the optional class, a variant without one is
  escaped. Otherwise every apostrophe of the query is rewritten as the optional class (a
  query without apostrophes stays as it is).
\<close>

theorem regex_query_rewrite:
  "flexible_query L normalized_query =
     (case find (\<lambda>(contraction, alts). py_in contraction (py_lower L normalized_query))
             contraction_terms of
        Some (contraction, alts) \<Rightarrow>
          re_sub_ignorecase L contraction
            ([40] @ join [124]
                     (map (\<lambda>alt. if 39 \<in> set alt
                                 then concat (map (\<lambda>x. if x = 39 then optional_apostrophe else [x]) alt)
                                 else re_escape alt) alts) @ [41])
            normalized_query
      | None \<Rightarrow>
          concat (map (\<lambda>x. if x = 39 then optional_apostrophe else [x]) normalized_query))"
proof (cases "find (\<lambda>(contraction, alts). py_in contraction (py_lower L normalized_query))
             contraction_terms")
  case None
  have "py_replace normalized_query [39] optional_apostrophe = normalized_query"
    if "\<not> py_in [39] normalized_query"
    using that by (simp add: py_in_single replace_char_absent)
  then show ?thesis
    using None by (auto simp: flexible_query_def terms_loop_find replace_char_all)
next
  case (Some p)
  obtain contraction alts where p: "p = (contraction, alts)" by (cases p)
  have "pattern_part alts = [40] @ join [124]
                     (map (\<lambda>alt. if 39 \<in> set alt
                                 then concat (map (\<lambda>x. if x = 39 then optional_apostrophe else [x]) alt)
                                 else re_escape alt) alts) @ [41]"
    by (simp add: pattern_part_def alt_parts_eq py_in_single replace_char_all cong: if_cong)
  then show ?thesis
    using Some p by (simp add: flexible_query_def terms_loop_find)
qed

theorem regex_query_rewrite_witness:
  "flexible_query ascii_lib (u ''Don't it's'') = dont_group @ u '' it's''"
proof -
  have f: "find (\<lambda>(contraction, alts). py_in contraction (py_lower ascii_lib (u ''Don't it's'')))
             contraction_terms
       = Some (u ''don't'', [u ''didn't'', u ''don't'', u ''do not'', u ''did not''])"
    by (simp add: contraction_terms_def ascii_lib_simps u_def ascii_lower_char_def)
  have g: "[40] @ join [124]
                     (map (\<lambda>alt. if 39 \<in> set alt
                                 then concat (map (\<lambda>x. if x = 39 then optional_apostrophe else [x]) alt)
                                 else re_escape alt)
                        [u ''didn't'', u ''don't'', u ''do not'', u ''did not'']) @ [41] = dont_group"
    by (simp add: dont_group_def u_def optional_apostrophe_def re_escape_def re_special_def)
  have r: "re_sub_ignorecase ascii_lib (u ''don't'') dont_group (u ''Don't it's'')
      = dont_group @ u '' it's''"
    by (simp add: re_sub_ignorecase_def ascii_lib_simps u_def ascii_ci_def ascii_lower_char_def)
  from regex_query_rewrite [of ascii_lib "u ''Don't it's''"] show ?thesis
    unfolding f by (simp only: option.case prod.case g r)
qed

text \<open>
  The claim as first stated has a single occurrence replaced. For the query
  \<open>don't don't\<close> both occurrences are replaced by the group.
\<close>

theorem double_contraction_counterexample:
  "regex_pattern ascii_lib example_manager (u ''don't don't'') = dont_group @ u '' '' @ dont_group \<and>
   regex_pattern ascii_lib example_manager (u ''don't don't'') \<noteq> dont_group @ u '' don't''"
proof -
  have n: "normalized ascii_lib (u ''don't don't'') = u ''don't don't''"
    by (rule normalized_ascii) (simp_all add: u_def)
  have l: "length dont_group = 39" "length (u '' '') = 1"
    by (simp_all add: dont_group_def u_def)
  have "regex_pattern ascii_lib example_manager (u ''don't don't'') = dont_group @ u '' '' @ dont_group"
    unfolding regex_pattern_def n flexible_dont_dont
    by (simp add: limit_pattern_def l mode_options_def example_modes get_or_def no_options_def)
  moreover have "dont_group @ u '' '' @ dont_group \<noteq> dont_group @ u '' don't''"
    by (simp add: dont_group_def u_def)
  ultimately show ?thesis by simp
qed

text \<open>
  Claim C8 (non-negative scores), as amended. When the weights of the exact and the regex
  mode and the two hybrid weights are non-negative, and the regex engine reports matches
  that start within the text, every score in a list returned by \<open>search\<close> is
  non-negative.
\<close>

theorem search_scores_nonneg:
  assumes "0 \<le> mode_weight M ''exact''" and "0 \<le> mode_weight M ''regex''"
    and "0 \<le> hybrid_weight M ''exact'' 1.0" and "0 \<le> hybrid_weight M ''regex'' 1.2"
    and "engine_in_range L"
    and "search L M query messages mode = Inr rs"
  shows "\<forall>r \<in> set rs. 0 \<le> fst r"
proof -
  from search_cases[of L M query messages mode] assms(6)
  consider "rs = exact_search L M query messages" | "regex_search L M query messages = Inr rs"
    | "hybrid_search L M query messages = Inr rs"
    by auto
  then have "nonneg_scores rs"
  proof cases
    case 1
    then show ?thesis using exact_search_nonneg[OF assms(1)] by simp
  next
    case 2
    then show ?thesis by (rule regex_search_nonneg[OF assms(1,2,5)])
  next
    case 3
    then show ?thesis using hybrid_search_nonneg[OF assms(1-5)] by simp
  qed
  then show ?thesis by (simp add: nonneg_scores_def)
qed

theorem search_scores_nonneg_witness:
  "0 \<le> mode_weight example_manager ''exact'' \<and> 0 \<le> mode_weight example_manager ''regex'' \<and>
   0 \<le> hybrid_weight example_manager ''exact'' 1.0 \<and>
   0 \<le> hybrid_weight example_manager ''regex'' 1.2 \<and>
   search ascii_lib example_manager (u ''b'') [msg_ab, msg_b] (Some ''regex'')
     = Inr [(1, msg_b), (9 / 10, msg_ab)] \<and>
   list_all (\<lambda>r. (0::real) \<le> fst r) [(1, msg_b), (9 / 10, msg_ab)]"
proof -
  have w: "0 \<le> mode_weight example_manager ''exact''" "0 \<le> mode_weight example_manager ''regex''"
    "0 \<le> hybrid_weight example_manager ''exact'' 1.0"
    "0 \<le> hybrid_weight example_manager ''regex'' 1.2"
    by (simp_all add: example_weights)
  have s: "search ascii_lib example_manager (u ''b'') [msg_ab, msg_b] (Some ''regex'')
     = Inr [(1, msg_b), (9 / 10, msg_ab)]"
    by (simp add: search_def Let_def example_modes regex_search_b)
  from search_scores_nonneg [OF w engine_in_range_ascii s]
  have "list_all (\<lambda>r. (0::real) \<le> fst r) [(1, msg_b), (9 / 10, msg_ab)]"
    by (simp only: list_all_iff)
  with w s show ?thesis by blast
qed

text \<open>
  The claim as first stated holds for every configuration. The weights are read from the
  configuration as they are: with the weight \<open>-1\<close> for the exact mode, the message
  \<open>b\<close> gets the score \<open>-1\<close> for the query \<open>b\<close>.
\<close>

theorem negative_weight_counterexample:
  "new_manager (Some negative_config) = Inr negative_manager \<and>
   search ascii_lib negative_manager (u ''b'') [msg_b] (Some ''exact'') = Inr [(- 1, msg_b)]"
proof -
  have m: "search_modes negative_manager ''exact''
      = Some \<lparr>enabled = Some True, weight = Some (- 1), options = None\<rparr>"
    by (simp add: negative_manager_def)
  have e: "exact_search ascii_lib negative_manager (u ''b'') [msg_b] = [(- 1, msg_b)]"
    by (simp add: exact_search_def Let_def u_def normalized_ascii alternatives_plain ascii_lib_simps
      ascii_lower_char_def mode_weight_def m get_or_def msg_b_def msg_get_def
      exact_score_def py_count_def py_find_def sort_results_def)
  have s: "search ascii_lib negative_manager (u ''b'') [msg_b] (Some ''exact'') = Inr [(- 1, msg_b)]"
    by (simp add: search_def Let_def m e)
  have n: "new_manager (Some negative_config) = Inr negative_manager"
    by (simp add: new_manager_def negative_config_def negative_manager_def get_or_def)
  from n s show ?thesis by simp
qed

text \<open>
  Claim C9 (empty query). For the empty query \<open>_exact_search\<close> returns exactly one result
  for every message of the list, also for a message whose text is empty or absent: the
  empty string occurs in every text, \<open>len + 1\<close> times and first at index 0.
\<close>

theorem exact_search_empty_query:
  assumes "py_nfkd L [] = []" and "py_lower L [] = []"
  shows "exact_search L M [] messages =
           sort_results (map (\<lambda>msg. (mode_weight M ''exact'' *
                                       (0.6 + 0.2 * real (length (text_lower L msg) + 1)
                                        + 0.2 * (if text_lower L msg = [] then 0 else 1)), msg))
                         messages) \<and>
         mset (map snd (exact_search L M [] messages)) = mset messages \<and>
         length (exact_search L M [] messages) = length messages"
proof -
  have ql: "query_lower L [] = []"
    using assms by (simp add: query_lower_def normalized_def py_replace_def)
  have alts: "alternatives [] = [[]]"
    by (rule alternatives_plain) simp_all
  have sc: "\<And>w text. exact_score w [] text [] =
      w * (0.6 + 0.2 * real (length text + 1) + 0.2 * (if text = [] then 0 else 1))"
    by (simp add: exact_score_def Let_def py_count_def py_find_def find_from_empty)
  have al: "\<And>msg. alt_loop (mode_weight M ''exact'') [] (text_lower L msg) msg [[]] =
      Some (mode_weight M ''exact'' *
              (0.6 + 0.2 * real (length (text_lower L msg) + 1)
               + 0.2 * (if text_lower L msg = [] then 0 else 1)), msg)"
    by (simp only: alt_loop.simps py_in_empty if_True sc)
  have mf: "\<And>f xs. List.map_filter (\<lambda>x. Some (f x)) xs = map f xs"
    by (simp add: List.map_filter_def comp_def)
  have eq: "exact_search L M [] messages =
           sort_results (map (\<lambda>msg. (mode_weight M ''exact'' *
                                       (0.6 + 0.2 * real (length (text_lower L msg) + 1)
                                        + 0.2 * (if text_lower L msg = [] then 0 else 1)), msg))
                         messages)"
    by (simp only: exact_search_eq alts ql al mf)
  have "mset (map snd (exact_search L M [] messages)) =
      mset (filter (\<lambda>msg. \<exists>alt \<in> set (alternatives (query_lower L [])).
                py_in alt (text_lower L msg)) messages)"
    by (rule exact_search_messages)
  also have "\<dots> = mset messages"
    by (simp add: ql alts py_in_empty)
  finally have ms: "mset (map snd (exact_search L M [] messages)) = mset messages" .
  have "size (mset (map snd (exact_search L M [] messages))) = size (mset messages)"
    by (simp only: ms)
  then have "length (exact_search L M [] messages) = length messages" by simp
  with eq ms show ?thesis by blast
qed

theorem exact_search_empty_query_witness:
  "py_nfkd ascii_lib [] = [] \<and> py_lower ascii_lib [] = [] \<and>
   mset (map snd (exact_search ascii_lib example_manager [] [msg_b, msg_no_text]))
     = {#msg_b, msg_no_text#} \<and>
   length (exact_search ascii_lib example_manager [] [msg_b, msg_no_text]) = 2"
proof -
  have h: "py_nfkd ascii_lib [] = []" "py_lower ascii_lib [] = []"
    by (simp_all add: ascii_lib_simps)
  note t = exact_search_empty_query [OF h, of example_manager "[msg_b, msg_no_text]"]
  from t have a: "mset (map snd (exact_search ascii_lib example_manager [] [msg_b, msg_no_text]))
      = mset [msg_b, msg_no_text]"
    by blast
  from t have b: "length (exact_search ascii_lib example_manager [] [msg_b, msg_no_text])
      = length [msg_b, msg_no_text]"
    by blast
  from h a b show ?thesis by simp
qed

text \<open>
  Claim C10 (duplicate identities). In a list returned by \<open>_hybrid_search\<close>, every
  non-empty identity found by an enabled mode has exactly one entry: its score is the sum
  of the weighted scores of all results with that identity, and its message is the last one
  with that identity met during the accumulation, which goes through the exact results and
  then the regex results.
\<close>

theorem hybrid_duplicates_merged:
  assumes "hybrid_search L M query messages = Inr rs"
  shows "\<exists>R. regex_results L M (py_strip L query) messages = Inr R \<and>
     (let E = exact_results L M (py_strip L query) messages;
          we = hybrid_weight M ''exact'' 1.0;
          wr = hybrid_weight M ''regex'' 1.2
      in \<forall>k \<in> result_ids E \<union> result_ids R.
           \<exists>m. last_message k (E @ R) = Some m \<and>
               filter (\<lambda>r. message_id (snd r) = k) rs
                 = [(contribution we k E + contribution wr k R, m)])"
proof -
  define E where "E = exact_results L M (py_strip L query) messages"
  define we where "we = hybrid_weight M ''exact'' 1.0"
  define wr where "wr = hybrid_weight M ''regex'' 1.2"
  obtain R where R: "regex_results L M (py_strip L query) messages = Inr R"
    using assms by (rule hybrid_search_Inr)
  obtain keys where hs: "hybrid_search L M query messages =
       Inr (sort_results (map (hybrid_entry we wr E R) keys))"
    and dk: "distinct keys" and sk: "set keys = result_ids E \<union> result_ids R"
    using hybrid_search_entries[OF R] unfolding E_def we_def wr_def by blast
  have rs: "rs = sort_results (map (hybrid_entry we wr E R) keys)"
    using hs assms by simp
  have 1: "\<exists>m. last_message k (E @ R) = Some m \<and>
               filter (\<lambda>r. message_id (snd r) = k) rs
                 = [(contribution we k E + contribution wr k R, m)]"
    if k: "k \<in> result_ids E \<union> result_ids R" for k
  proof -
    have "filter (\<lambda>r. message_id (snd r) = k) (map (hybrid_entry we wr E R) keys)
        = map (hybrid_entry we wr E R) (filter (\<lambda>k'. message_id (snd (hybrid_entry we wr E R k')) = k) keys)"
      by (simp add: filter_map comp_def)
    also have "filter (\<lambda>k'. message_id (snd (hybrid_entry we wr E R k')) = k) keys
        = filter (\<lambda>k'. k' = k) keys"
      using hybrid_entry_id(1)[of _ E R we wr] sk by (intro filter_cong) auto
    also have "\<dots> = [k]"
      using dk k sk by (simp add: filter_key_distinct)
    finally have "filter (\<lambda>r. message_id (snd r) = k) rs = [hybrid_entry we wr E R k]"
      unfolding rs by (simp add: filter_sort_results sort_results_single)
    moreover have "hybrid_entry we wr E R k =
        (contribution we k E + contribution wr k R, snd (hybrid_entry we wr E R k))"
      by (simp add: hybrid_entry_def)
    ultimately have "filter (\<lambda>r. message_id (snd r) = k) rs =
        [(contribution we k E + contribution wr k R, snd (hybrid_entry we wr E R k))]"
      by simp
    with hybrid_entry_id(2)[OF k, of we wr] show ?thesis by blast
  qed
  have 2: "\<forall>k \<in> result_ids E \<union> result_ids R.
           \<exists>m. last_message k (E @ R) = Some m \<and>
               filter (\<lambda>r. message_id (snd r) = k) rs
                 = [(contribution we k E + contribution wr k R, m)]"
    using 1 by blast
  show ?thesis
    unfolding Let_def E_def[symmetric] we_def[symmetric] wr_def[symmetric]
    by (rule exI[of _ R]) (intro conjI R 2)
qed

theorem hybrid_duplicates_merged_witness:
  "hybrid_search ascii_lib example_manager (u ''b'') [msg_ab, msg_b1] = Inr [(316 / 75, msg_ab)] \<and>
   last_message (u ''m1'')
     ([(1, msg_b1), (14 / 15, msg_ab)] @ [(1, msg_b1), (9 / 10, msg_ab)]) = Some msg_ab \<and>
   contribution 1 (u ''m1'') [(1, msg_b1), (14 / 15, msg_ab)]
     + contribution (6 / 5) (u ''m1'') [(1, msg_b1), (9 / 10, msg_ab)] = 316 / 75"
proof -
  let ?E = "[(1, msg_b1), (14 / 15 :: real, msg_ab)]"
  let ?R = "[(1, msg_b1), (9 / 10 :: real, msg_ab)]"
  have e: "exact_results ascii_lib example_manager (u ''b'') [msg_ab, msg_b1] = ?E"
    by (simp add: exact_results_def example_hybrid exact_search_b1)
  have rr: "regex_results ascii_lib example_manager (u ''b'') [msg_ab, msg_b1] = Inr ?R"
    by (simp add: regex_results_def example_hybrid regex_search_b1)
  have k: "u ''m1'' \<in> result_ids ?E \<union> result_ids ?R"
    unfolding result_ids_def using example_ids u_m1_m2 by force
  have f: "filter (\<lambda>r. message_id (snd r) = u ''m1'') [(316 / 75 :: real, msg_ab)]
      = [(316 / 75, msg_ab)]"
    by (simp add: example_ids)
  note t = hybrid_duplicates_merged [OF hybrid_search_b1, unfolded Let_def example_hybrid rr e]
  obtain R where R: "Inr ?R = (Inr R :: error + (real \<times> message) list)"
    and b: "\<forall>k \<in> result_ids ?E \<union> result_ids R.
           \<exists>m. last_message k (?E @ R) = Some m \<and>
               filter (\<lambda>r. message_id (snd r) = k) [(316 / 75, msg_ab)]
                 = [(contribution 1 k ?E + contribution (6 / 5) k R, m)]"
    using t by (elim exE conjE) (rule that; assumption)
  from R have R': "R = ?R" by simp
  from b[unfolded R', rule_format, OF k] obtain m where
    l: "last_message (u ''m1'') (?E @ ?R) = Some m"
    and g: "filter (\<lambda>r. message_id (snd r) = u ''m1'') [(316 / 75 :: real, msg_ab)]
                 = [(contribution 1 (u ''m1'') ?E + contribution (6 / 5) (u ''m1'') ?R, m)]"
    by blast
  from g have "contribution 1 (u ''m1'') ?E + contribution (6 / 5) (u ''m1'') ?R = 316 / 75"
    and "m = msg_ab"
    unfolding f by simp_all
  with l hybrid_search_b1 show ?thesis by simp
qed

end
